theory Spec2Isabelle
  imports Complex_Main
begin

section \<open>The pointer grace area of bits-ui (useGraceArea.svelte.ts)\<close>

text \<open>
  The functions of \<^verbatim>\<open>packages/bits-ui/src/lib/internal/useGraceArea.svelte.ts\<close>,
  embedded as HOL functions. A JavaScript \<^verbatim>\<open>number\<close> holding a finite value is
  modelled as a \<^typ>\<open>real\<close>: arithmetic is exact, rounding, infinities and NaN are not
  part of the model.
\<close>

subsection \<open>Data\<close>

text \<open>\<^verbatim>\<open>type Point = { x: number; y: number }\<close>; the fields are named
  \<open>px\<close> and \<open>py\<close> here.\<close>

record Point =
  px :: real
  py :: real

type_synonym Polygon = "Point list"

text \<open>The four fields of a \<^verbatim>\<open>DOMRect\<close> that the code reads.\<close>

record DOMRect =
  rtop :: real
  rright :: real
  rbottom :: real
  rleft :: real

datatype Side = STop | SBottom | SLeft | SRight

datatype error = Unreachable

subsection \<open>getExitSideFromRect\<close>

text \<open>The \<^verbatim>\<open>switch\<close> compares the minimum with each case label by strict
  equality, in the order left, right, top, bottom; its \<^verbatim>\<open>default\<close> branch throws.\<close>

definition getExitSideFromRect :: "Point \<Rightarrow> DOMRect \<Rightarrow> error + Side" where
  "getExitSideFromRect point rect =
     (let top = \<bar>rtop rect - py point\<bar>;
          bottom = \<bar>rbottom rect - py point\<bar>;
          right = \<bar>rright rect - px point\<bar>;
          left = \<bar>rleft rect - px point\<bar>;
          m = min (min (min top bottom) right) left
      in if m = left then Inr SLeft
         else if m = right then Inr SRight
         else if m = top then Inr STop
         else if m = bottom then Inr SBottom
         else Inl Unreachable)"

subsection \<open>getPaddedExitPoints\<close>

definition getPaddedExitPoints :: "Point \<Rightarrow> Side \<Rightarrow> real \<Rightarrow> Point list" where
  "getPaddedExitPoints exitPoint exitSide padding =
     (case exitSide of
        STop \<Rightarrow>
          [\<lparr>px = px exitPoint - padding, py = py exitPoint + padding\<rparr>,
           \<lparr>px = px exitPoint + padding, py = py exitPoint + padding\<rparr>]
      | SBottom \<Rightarrow>
          [\<lparr>px = px exitPoint - padding, py = py exitPoint - padding\<rparr>,
           \<lparr>px = px exitPoint + padding, py = py exitPoint - padding\<rparr>]
      | SLeft \<Rightarrow>
          [\<lparr>px = px exitPoint + padding, py = py exitPoint - padding\<rparr>,
           \<lparr>px = px exitPoint + padding, py = py exitPoint + padding\<rparr>]
      | SRight \<Rightarrow>
          [\<lparr>px = px exitPoint - padding, py = py exitPoint - padding\<rparr>,
           \<lparr>px = px exitPoint - padding, py = py exitPoint + padding\<rparr>])"

text \<open>The call with the parameter \<^verbatim>\<open>padding = 5\<close> left to its default.\<close>

definition getPaddedExitPoints_default :: "Point \<Rightarrow> Side \<Rightarrow> Point list" where
  "getPaddedExitPoints_default exitPoint exitSide = getPaddedExitPoints exitPoint exitSide 5"

subsection \<open>getPointsFromRect\<close>

definition getPointsFromRect :: "DOMRect \<Rightarrow> Point list" where
  "getPointsFromRect rect =
     [\<lparr>px = rleft rect, py = rtop rect\<rparr>,
      \<lparr>px = rright rect, py = rtop rect\<rparr>,
      \<lparr>px = rright rect, py = rbottom rect\<rparr>,
      \<lparr>px = rleft rect, py = rbottom rect\<rparr>]"

subsection \<open>isPointInPolygon\<close>

text \<open>One edge test of the ray casting loop. \<^verbatim>\<open>&&\<close> does not evaluate the
  division when the two ends of the edge are on the same side of the ray, so the divisor
  is never zero where the quotient is used.\<close>

definition intersect :: "Point \<Rightarrow> Point \<Rightarrow> Point \<Rightarrow> bool" where
  "intersect point vi vj =
     (((py vi > py point) \<noteq> (py vj > py point)) \<and>
      px point < (px vj - px vi) * (py point - py vi) / (py vj - py vi) + px vi)"

text \<open>The \<^verbatim>\<open>for (let i = 0, j = polygon.length - 1; i < polygon.length; j = i++)\<close>
  loop, with its three variables \<open>i\<close>, \<open>j\<close> and \<open>inside\<close>. For the empty polygon
  \<open>j\<close> starts at \<open>-1\<close> in the source and is never read.\<close>

function isPointInPolygon_loop :: "Point \<Rightarrow> Polygon \<Rightarrow> nat \<Rightarrow> nat \<Rightarrow> bool \<Rightarrow> bool" where
  "isPointInPolygon_loop point polygon i j inside =
     (if i < length polygon
      then isPointInPolygon_loop point polygon (i + 1) i
             (if intersect point (polygon ! i) (polygon ! j) then \<not> inside else inside)
      else inside)"
  by pat_completeness auto
termination
  by (relation "measure (\<lambda>(point, polygon, i, j, inside). length polygon - i)") auto

declare isPointInPolygon_loop.simps [simp del]

definition isPointInPolygon :: "Point \<Rightarrow> Polygon \<Rightarrow> bool" where
  "isPointInPolygon point polygon =
     isPointInPolygon_loop point polygon 0 (length polygon - 1) False"

subsection \<open>getHull and getHullPresorted\<close>

text \<open>The comparator that \<^verbatim>\<open>getHull\<close> passes to \<^verbatim>\<open>sort\<close>.\<close>

definition comparePoints :: "Point \<Rightarrow> Point \<Rightarrow> int" where
  "comparePoints a b =
     (if px a < px b then - 1
      else if px a > px b then 1
      else if py a < py b then - 1
      else if py a > py b then 1
      else 0)"

text \<open>\<^verbatim>\<open>Array.prototype.sort\<close> with a comparator is a stable sort; for a comparator
  that is a total preorder its result is the one of a stable insertion sort, which
  stands for it here.\<close>

fun insert_by :: "('a \<Rightarrow> 'a \<Rightarrow> int) \<Rightarrow> 'a \<Rightarrow> 'a list \<Rightarrow> 'a list" where
  "insert_by cmp a [] = [a]"
| "insert_by cmp a (b # bs) = (if cmp a b \<le> 0 then a # b # bs else b # insert_by cmp a bs)"

fun sort_by :: "('a \<Rightarrow> 'a \<Rightarrow> int) \<Rightarrow> 'a list \<Rightarrow> 'a list" where
  "sort_by cmp [] = []"
| "sort_by cmp (a # as) = insert_by cmp a (sort_by cmp as)"

text \<open>The inner \<^verbatim>\<open>while (upperHull.length >= 2)\<close> loop of a chain: it pops the last
  point of the chain \<open>hs\<close> built so far as long as the last two points and \<open>p\<close> satisfy the test.\<close>

function popLoop :: "Point \<Rightarrow> Point list \<Rightarrow> Point list" where
  "popLoop p hs =
     (if length hs \<ge> 2
      then (let q = hs ! (length hs - 1); r = hs ! (length hs - 2)
            in if (px q - px r) * (py p - py r) \<ge> (py q - py r) * (px p - px r)
               then popLoop p (butlast hs)
               else hs)
      else hs)"
  by pat_completeness auto
termination
  by (relation "measure (\<lambda>(p, hs). length hs)") auto

declare popLoop.simps [simp del]

text \<open>The outer \<^verbatim>\<open>for\<close> loop of a chain over the points still to visit: pop, then
  push \<open>p\<close>. The upper chain visits the points from the first to the last, the lower
  chain from the last to the first.\<close>

fun chainLoop :: "Point list \<Rightarrow> Point list \<Rightarrow> Point list" where
  "chainLoop hs [] = hs"
| "chainLoop hs (p # ps) = chainLoop (popLoop p hs @ [p]) ps"

definition getHullPresorted :: "Point list \<Rightarrow> Point list" where
  "getHullPresorted points =
     (if length points \<le> 1 then points
      else (let upperHull = butlast (chainLoop [] points);
                lowerHull = butlast (chainLoop [] (rev points))
            in if length upperHull = 1 \<and> length lowerHull = 1 \<and>
                  px (upperHull ! 0) = px (lowerHull ! 0) \<and>
                  py (upperHull ! 0) = py (lowerHull ! 0)
               then upperHull
               else upperHull @ lowerHull))"

definition getHull :: "Point list \<Rightarrow> Point list" where
  "getHull points = getHullPresorted (sort_by comparePoints points)"

subsection \<open>getHull on arrays in a store\<close>

text \<open>Arrays are objects: a variable holds a reference, and \<^verbatim>\<open>sort\<close>,
  \<^verbatim>\<open>push\<close> and \<^verbatim>\<open>pop\<close> change the array behind it. The store lists the
  arrays allocated so far; a reference is an index into it, and a new array takes the
  next free index.\<close>

type_synonym ref = nat
type_synonym store = "Point list list"

definition alloc :: "store \<Rightarrow> Point list \<Rightarrow> store \<times> ref" where
  "alloc h v = (h @ [v], length h)"

text \<open>\<^verbatim>\<open>points.slice()\<close>: a new array with the same elements.\<close>

definition slice :: "store \<Rightarrow> ref \<Rightarrow> store \<times> ref" where
  "slice h a = alloc h (h ! a)"

text \<open>\<^verbatim>\<open>newPoints.sort(...)\<close> sorts the array in place.\<close>

definition sort_in_place :: "store \<Rightarrow> ref \<Rightarrow> store" where
  "sort_in_place h a = h[a := sort_by comparePoints (h ! a)]"

text \<open>One chain: a new empty array, then the loop of pops and pushes on it (reading
  the points in the order given by \<open>order\<close>), then the final \<^verbatim>\<open>pop\<close>.\<close>

definition chain_in_store :: "store \<Rightarrow> ref \<Rightarrow> (Point list \<Rightarrow> Point list) \<Rightarrow> store \<times> ref" where
  "chain_in_store h points order =
     (let (h1, hullRef) = alloc h [];
          h2 = h1[hullRef := chainLoop (h1 ! hullRef) (order (h1 ! points))];
          h3 = h2[hullRef := butlast (h2 ! hullRef)]
      in (h3, hullRef))"

definition getHullPresorted_store :: "store \<Rightarrow> ref \<Rightarrow> store \<times> ref" where
  "getHullPresorted_store h points =
     (if length (h ! points) \<le> 1 then slice h points
      else (let (h1, upperHull) = chain_in_store h points (\<lambda>ps. ps);
                (h2, lowerHull) = chain_in_store h1 points rev
            in if length (h2 ! upperHull) = 1 \<and> length (h2 ! lowerHull) = 1 \<and>
                  px (h2 ! upperHull ! 0) = px (h2 ! lowerHull ! 0) \<and>
                  py (h2 ! upperHull ! 0) = py (h2 ! lowerHull ! 0)
               then (h2, upperHull)
               else alloc h2 (h2 ! upperHull @ h2 ! lowerHull)))"

definition getHull_store :: "store \<Rightarrow> ref \<Rightarrow> store \<times> ref" where
  "getHull_store h points =
     (let (h1, newPoints) = slice h points;
          h2 = sort_in_place h1 newPoints
      in getHullPresorted_store h2 newPoints)"

subsection \<open>useGraceArea: the tracker\<close>

type_synonym node = nat

text \<open>What the handlers read from a \<^verbatim>\<open>PointerEvent\<close>. \<open>target\<close> is \<open>None\<close> when
  \<^verbatim>\<open>isElementOrSVGElement(e.target)\<close> fails; \<open>currentTarget\<close> is \<open>None\<close> when
  \<^verbatim>\<open>isHTMLElement(e.currentTarget)\<close> fails, and otherwise holds the element's
  \<^verbatim>\<open>getBoundingClientRect()\<close>.\<close>

record PointerEvent =
  clientX :: real
  clientY :: real
  target :: "node option"
  currentTarget :: "DOMRect option"

text \<open>The elements of the caller at the time of an event: the two boxes, the DOM's
  \<^verbatim>\<open>contains\<close> relation and the bounding rectangle of the content element.\<close>

record Elements =
  triggerNode :: "node option"
  contentNode :: "node option"
  contains :: "node \<Rightarrow> node \<Rightarrow> bool"
  contentRect :: DOMRect

text \<open>The variables of one \<^verbatim>\<open>useGraceArea\<close> closure. \<open>pointerExit\<close> counts the calls
  of \<^verbatim>\<open>pointerExit.trigger()\<close>.\<close>

record GraceArea =
  pointerGraceArea :: "Polygon option"
  isPointerInTransit :: bool
  pointerExit :: nat

definition initialGraceArea :: GraceArea where
  "initialGraceArea = \<lparr>pointerGraceArea = None, isPointerInTransit = False, pointerExit = 0\<rparr>"

definition handleRemoveGraceArea :: "GraceArea \<Rightarrow> GraceArea" where
  "handleRemoveGraceArea s = s\<lparr>pointerGraceArea := None, isPointerInTransit := False\<rparr>"

text \<open>An exception of \<^verbatim>\<open>getExitSideFromRect\<close> leaves the handler before its two
  assignments.\<close>

definition handleCreateGraceArea :: "PointerEvent \<Rightarrow> DOMRect \<Rightarrow> GraceArea \<Rightarrow> GraceArea" where
  "handleCreateGraceArea e hoverTargetRect s =
     (case currentTarget e of
        None \<Rightarrow> s
      | Some rect \<Rightarrow>
          (let exitPoint = \<lparr>px = clientX e, py = clientY e\<rparr>
           in case getExitSideFromRect exitPoint rect of
                Inl err \<Rightarrow> s
              | Inr exitSide \<Rightarrow>
                  (let paddedExitPoints = getPaddedExitPoints_default exitPoint exitSide;
                       hoverTargetPoints = getPointsFromRect hoverTargetRect;
                       graceArea = getHull (paddedExitPoints @ hoverTargetPoints)
                   in s\<lparr>pointerGraceArea := Some graceArea, isPointerInTransit := True\<rparr>)))"

text \<open>\<^verbatim>\<open>node.value?.contains(target)\<close>: undefined, hence falsy, for a null box.\<close>

definition box_contains :: "Elements \<Rightarrow> node option \<Rightarrow> node \<Rightarrow> bool" where
  "box_contains env box t = (case box of None \<Rightarrow> False | Some n \<Rightarrow> contains env n t)"

definition handleTrackPointerGrace :: "Elements \<Rightarrow> PointerEvent \<Rightarrow> GraceArea \<Rightarrow> GraceArea" where
  "handleTrackPointerGrace env e s =
     (case pointerGraceArea s of
        None \<Rightarrow> s
      | Some polygon \<Rightarrow>
          (case target e of
             None \<Rightarrow> s
           | Some t \<Rightarrow>
               (let pointerPosition = \<lparr>px = clientX e, py = clientY e\<rparr>;
                    hasEnteredTarget =
                      (box_contains env (triggerNode env) t \<or> box_contains env (contentNode env) t);
                    isPointerOutsideGraceArea = (\<not> isPointInPolygon pointerPosition polygon)
                in if hasEnteredTarget then handleRemoveGraceArea s
                   else if isPointerOutsideGraceArea
                   then (handleRemoveGraceArea s)\<lparr>pointerExit := pointerExit s + 1\<rparr>
                   else s)))"

text \<open>Modelled from the spec: \<^verbatim>\<open>boxAutoReset(false, 300)\<close> comes from
  \<^verbatim>\<open>boxAutoReset.svelte.js\<close>, which is not among the sources. By the spec, 300ms
  after the flag was last set to true the timer flips it back to false and leaves the
  polygon untouched.\<close>

definition autoReset :: "GraceArea \<Rightarrow> GraceArea" where
  "autoReset s = s\<lparr>isPointerInTransit := False\<rparr>"

text \<open>The events that reach the tracker. The two \<^verbatim>\<open>pointerleave\<close> listeners are
  attached only while both boxes are non-null; the \<^verbatim>\<open>pointermove\<close> listener on the
  document is attached while a polygon is stored, which the handler tests again.\<close>

datatype event =
    TriggerPointerLeave PointerEvent
  | ContentPointerLeave
  | DocumentPointerMove PointerEvent
  | AutoResetTimer

fun step :: "Elements \<Rightarrow> event \<Rightarrow> GraceArea \<Rightarrow> GraceArea" where
  "step env (TriggerPointerLeave e) s =
     (if triggerNode env \<noteq> None \<and> contentNode env \<noteq> None
      then handleCreateGraceArea e (contentRect env) s else s)"
| "step env ContentPointerLeave s =
     (if triggerNode env \<noteq> None \<and> contentNode env \<noteq> None
      then handleRemoveGraceArea s else s)"
| "step env (DocumentPointerMove e) s = handleTrackPointerGrace env e s"
| "step env AutoResetTimer s = autoReset s"

fun run :: "(Elements \<times> event) list \<Rightarrow> GraceArea \<Rightarrow> GraceArea" where
  "run [] s = s"
| "run ((env, ev) # evs) s = run evs (step env ev s)"

subsection \<open>A sample session\<close>

text \<open>A trigger at the left of its content, a pointer that leaves the trigger through
  its right edge, and the states and moves that follow; used to evaluate the tracker.\<close>

definition ex_env :: Elements where
  "ex_env = \<lparr>triggerNode = Some 1, contentNode = Some 2, contains = (\<lambda>a b. a = b),
     contentRect = \<lparr>rtop = 0, rright = 200, rbottom = 50, rleft = 100\<rparr>\<rparr>"

definition ex_leave :: PointerEvent where
  "ex_leave = \<lparr>clientX = 50, clientY = 20, target = Some 1,
      currentTarget = Some \<lparr>rtop = 0, rright = 50, rbottom = 40, rleft = 0\<rparr>\<rparr>"

definition ex_polygon :: Polygon where
  "ex_polygon = [\<lparr>px = 45, py = 15\<rparr>, \<lparr>px = 45, py = 25\<rparr>, \<lparr>px = 100, py = 50\<rparr>,
      \<lparr>px = 200, py = 50\<rparr>, \<lparr>px = 200, py = 0\<rparr>, \<lparr>px = 100, py = 0\<rparr>]"

definition ex_move :: "real \<Rightarrow> real \<Rightarrow> node \<Rightarrow> PointerEvent" where
  "ex_move a b t = \<lparr>clientX = a, clientY = b, target = Some t, currentTarget = None\<rparr>"

definition ex_transit :: GraceArea where
  "ex_transit = run [(ex_env, TriggerPointerLeave ex_leave)] initialGraceArea"

definition ex_after_timer :: GraceArea where
  "ex_after_timer = run [(ex_env, TriggerPointerLeave ex_leave), (ex_env, AutoResetTimer)] initialGraceArea"

text \<open>The flag and the polygon agree.\<close>

definition transit_inv :: "GraceArea \<Rightarrow> bool" where
  "transit_inv s = (isPointerInTransit s = (pointerGraceArea s \<noteq> None))"

text \<open>A store with one array of four points.\<close>

definition ex_store :: store where
  "ex_store = [[\<lparr>px = 3, py = 1\<rparr>, \<lparr>px = 1, py = 1\<rparr>, \<lparr>px = 2, py = 5\<rparr>, \<lparr>px = 2, py = 2\<rparr>]]"

subsection \<open>Notions for the hull\<close>

text \<open>The quantity whose sign the pop test reads: the test is \<open>cross r q p \<ge> 0\<close>.\<close>

definition cross :: "Point \<Rightarrow> Point \<Rightarrow> Point \<Rightarrow> real" where
  "cross r q p = (px q - px r) * (py p - py r) - (py q - py r) * (px p - px r)"

text \<open>The order of the comparator: by \<open>x\<close>, then by \<open>y\<close>.\<close>

definition lexle :: "Point \<Rightarrow> Point \<Rightarrow> bool" where
  "lexle a b = (px a < px b \<or> (px a = px b \<and> py a \<le> py b))"

text \<open>All points of the list lie on one line.\<close>

definition collinear_points :: "Point list \<Rightarrow> bool" where
  "collinear_points ps = (\<forall>a \<in> set ps. \<forall>b \<in> set ps. \<forall>c \<in> set ps. cross a b c = 0)"

text \<open>Three points on a line, unsorted.\<close>

definition ex_line :: "Point list" where
  "ex_line = [\<lparr>px = 1, py = 2\<rparr>, \<lparr>px = 0, py = 0\<rparr>, \<lparr>px = 3, py = 6\<rparr>]"

subsection \<open>Notions for the convex hull\<close>

text \<open>The consecutive pairs and the consecutive triples of a list.\<close>

fun pairs :: "'a list \<Rightarrow> ('a \<times> 'a) list" where
  "pairs (a # b # xs) = (a, b) # pairs (b # xs)"
| "pairs xs = []"

fun triples :: "'a list \<Rightarrow> ('a \<times> 'a \<times> 'a) list" where
  "triples (a # b # c # xs) = (a, b, c) # triples (b # c # xs)"
| "triples xs = []"

text \<open>Every three consecutive points of a chain fail the pop test: the chain turns
  the same way, strictly, at each of its inner points.\<close>

fun right_turns :: "Point list \<Rightarrow> bool" where
  "right_turns (a # b # c # xs) = (cross a b c < 0 \<and> right_turns (b # c # xs))"
| "right_turns xs = True"

text \<open>The point \<open>z\<close> lies, in the order of the comparator, between the two ends of an
  edge of the chain, and not on the outer side of that edge.\<close>

definition below :: "Point list \<Rightarrow> Point \<Rightarrow> bool" where
  "below hs z = (\<exists>(a, b) \<in> set (pairs hs). lexle a z \<and> lexle z b \<and> cross a b z \<le> 0)"

text \<open>The invariant of the outer loop of a chain: \<open>hs\<close> is the chain so far and \<open>Z\<close>
  the set of the points visited.\<close>

definition chain_inv :: "Point list \<Rightarrow> Point set \<Rightarrow> bool" where
  "chain_inv hs Z =
     (hs \<noteq> [] \<and> sorted_wrt lexle hs \<and> right_turns hs \<and> set hs \<subseteq> Z \<and>
      (\<forall>z \<in> Z. z \<in> set hs \<or> below hs z))"

text \<open>The half turn about the origin; it maps the lower chain of a list to the upper
  chain of the reversed list.\<close>

definition neg :: "Point \<Rightarrow> Point" where
  "neg p = \<lparr>px = - px p, py = - py p\<rparr>"

text \<open>What holds of a finished chain \<open>hs\<close> over the points \<open>xs\<close>, whichever way the
  sorted points are read.\<close>

definition chain_ok :: "Point list \<Rightarrow> Point list \<Rightarrow> bool" where
  "chain_ok xs hs =
     (right_turns hs \<and> set hs \<subseteq> set xs \<and>
      (\<forall>z \<in> set xs. \<forall>(a, b) \<in> set (pairs hs). cross a b z \<le> 0))"

text \<open>The edges of a polygon, the last one leading back to the first vertex, and its
  triples of consecutive vertices, taken around the polygon.\<close>

definition cyclic_edges :: "Polygon \<Rightarrow> (Point \<times> Point) list" where
  "cyclic_edges H = pairs (H @ take 1 H)"

definition cyclic_triples :: "Polygon \<Rightarrow> (Point \<times> Point \<times> Point) list" where
  "cyclic_triples H = triples (H @ take 2 H)"

text \<open>A point is on or inside a polygon whose vertices turn as those of a hull do: it
  is in the closed half plane of every edge, on the side the polygon turns to, and it is
  between two vertices in the order of the comparator. The second condition only matters
  for a polygon of one or two vertices, where it cuts the line down to the point or the
  segment.\<close>

definition on_or_inside :: "Point \<Rightarrow> Polygon \<Rightarrow> bool" where
  "on_or_inside z H =
     ((\<forall>(a, b) \<in> set (cyclic_edges H). cross a b z \<le> 0) \<and>
      (\<exists>lo \<in> set H. \<exists>hi \<in> set H. lexle lo z \<and> lexle z hi))"

text \<open>A square, its centre and the middle of one side.\<close>

definition ex_points :: "Point list" where
  "ex_points = [\<lparr>px = 0, py = 0\<rparr>, \<lparr>px = 10, py = 0\<rparr>, \<lparr>px = 10, py = 10\<rparr>,
     \<lparr>px = 0, py = 10\<rparr>, \<lparr>px = 5, py = 5\<rparr>, \<lparr>px = 5, py = 0\<rparr>]"

section \<open>Properties\<close>

subsection \<open>Exit side\<close>

text \<open>C4: the result is a side whose distance is the least of the four, and it is the
  first such side in the order left, right, top, bottom.\<close>

theorem getExitSideFromRect_min_first:
  fixes point :: Point and rect :: DOMRect
  defines "dt \<equiv> \<bar>rtop rect - py point\<bar>"
    and "db \<equiv> \<bar>rbottom rect - py point\<bar>"
    and "dr \<equiv> \<bar>rright rect - px point\<bar>"
    and "dl \<equiv> \<bar>rleft rect - px point\<bar>"
  shows "getExitSideFromRect point rect =
     Inr (if dl \<le> dr \<and> dl \<le> dt \<and> dl \<le> db then SLeft
          else if dr \<le> dt \<and> dr \<le> db then SRight
          else if dt \<le> db then STop
          else SBottom)"
  unfolding getExitSideFromRect_def Let_def dt_def db_def dr_def dl_def
  by (simp add: min_def)

text \<open>C9: the defensive default branch is never taken.\<close>

theorem getExitSideFromRect_total:
  "\<exists>side. getExitSideFromRect point rect = Inr side"
  unfolding getExitSideFromRect_def Let_def
  by (simp add: min_def)

subsection \<open>Padded exit points\<close>

text \<open>C8: with the default padding 5 the two points are those of the table, in order.\<close>

theorem getPaddedExitPoints_table:
  "getPaddedExitPoints_default \<lparr>px = a, py = b\<rparr> STop =
     [\<lparr>px = a - 5, py = b + 5\<rparr>, \<lparr>px = a + 5, py = b + 5\<rparr>] \<and>
   getPaddedExitPoints_default \<lparr>px = a, py = b\<rparr> SBottom =
     [\<lparr>px = a - 5, py = b - 5\<rparr>, \<lparr>px = a + 5, py = b - 5\<rparr>] \<and>
   getPaddedExitPoints_default \<lparr>px = a, py = b\<rparr> SLeft =
     [\<lparr>px = a + 5, py = b - 5\<rparr>, \<lparr>px = a + 5, py = b + 5\<rparr>] \<and>
   getPaddedExitPoints_default \<lparr>px = a, py = b\<rparr> SRight =
     [\<lparr>px = a - 5, py = b - 5\<rparr>, \<lparr>px = a - 5, py = b + 5\<rparr>]"
  by (simp add: getPaddedExitPoints_default_def getPaddedExitPoints_def)

subsection \<open>Point in polygon\<close>

lemma intersect_same: "\<not> intersect point a a"
  by (simp add: intersect_def)

lemma intersect_sym: "intersect point a b = intersect point b a"
proof (cases "(py a > py point) \<noteq> (py b > py point)")
  case False
  then show ?thesis by (auto simp: intersect_def)
next
  case True
  then have ne: "py b - py a \<noteq> 0" "py a - py b \<noteq> 0" by auto
  have "(px b - px a) * (py point - py a) / (py b - py a) + px a =
        (px a - px b) * (py point - py b) / (py a - py b) + px b"
    using ne by (simp add: field_simps)
  then show ?thesis using True by (auto simp: intersect_def)
qed

lemma isPointInPolygon_Nil: "isPointInPolygon point [] = False"
  by (simp add: isPointInPolygon_def isPointInPolygon_loop.simps)

lemma isPointInPolygon_one: "isPointInPolygon point [a] = False"
  by (simp add: isPointInPolygon_def isPointInPolygon_loop.simps [of _ "[a]"] intersect_same)

lemma isPointInPolygon_two: "isPointInPolygon point [a, b] = False"
  using intersect_sym [of point a b]
  by (simp add: isPointInPolygon_def isPointInPolygon_loop.simps [of _ "[a, b]"])



lemma isPointInPolygon_four:
  "isPointInPolygon point [a, b, c, d] =
     (((intersect point a d \<noteq> intersect point b a) \<noteq> intersect point c b) \<noteq> intersect point d c)"
  by (auto simp add: isPointInPolygon_def isPointInPolygon_loop.simps [of _ "[a, b, c, d]"])

lemma isPointInPolygon_rect:
  "isPointInPolygon point (getPointsFromRect rect) =
     ((min (rtop rect) (rbottom rect) \<le> py point \<and> py point < max (rtop rect) (rbottom rect)) \<and>
      (min (rleft rect) (rright rect) \<le> px point \<and> px point < max (rleft rect) (rright rect)))"
  unfolding getPointsFromRect_def isPointInPolygon_four
  by (auto simp: intersect_def)



subsection \<open>The tracker\<close>

lemma ex_transit_eq:
  "ex_transit = \<lparr>pointerGraceArea = Some ex_polygon, isPointerInTransit = True, pointerExit = 0\<rparr>"
  unfolding ex_transit_def ex_polygon_def ex_env_def ex_leave_def by code_simp

lemma ex_after_timer_eq:
  "ex_after_timer = \<lparr>pointerGraceArea = Some ex_polygon, isPointerInTransit = False, pointerExit = 0\<rparr>"
  unfolding ex_after_timer_def ex_polygon_def ex_env_def ex_leave_def by code_simp

lemma ex_polygon_inside: "isPointInPolygon \<lparr>px = 150, py = 25\<rparr> ex_polygon"
  unfolding ex_polygon_def by code_simp

lemma ex_polygon_outside: "\<not> isPointInPolygon \<lparr>px = 50, py = 500\<rparr> ex_polygon"
  unfolding ex_polygon_def by code_simp

text \<open>C3: a document pointermove with an element target, while a polygon is stored.
  A target inside the trigger or the content clears the state without a notification,
  whatever the pointer position; otherwise a position outside the polygon clears the
  state and notifies once; otherwise nothing changes.\<close>

theorem handleTrackPointerGrace_cases:
  fixes env :: Elements and e :: PointerEvent and s :: GraceArea
  assumes "pointerGraceArea s = Some polygon" and "target e = Some t"
  defines "s' \<equiv> handleTrackPointerGrace env e s"
    and "entered \<equiv> box_contains env (triggerNode env) t \<or> box_contains env (contentNode env) t"
    and "inside \<equiv> isPointInPolygon \<lparr>px = clientX e, py = clientY e\<rparr> polygon"
  shows "(entered \<longrightarrow>
            pointerGraceArea s' = None \<and> \<not> isPointerInTransit s' \<and> pointerExit s' = pointerExit s) \<and>
         (\<not> entered \<and> \<not> inside \<longrightarrow>
            pointerGraceArea s' = None \<and> \<not> isPointerInTransit s' \<and> pointerExit s' = pointerExit s + 1) \<and>
         (\<not> entered \<and> inside \<longrightarrow> s' = s)"
  using assms(1,2) unfolding s'_def entered_def inside_def
  by (simp add: handleTrackPointerGrace_def handleRemoveGraceArea_def Let_def)

theorem handleTrackPointerGrace_cases_witness:
  "pointerGraceArea ex_transit = Some ex_polygon \<and>
   target (ex_move 50 500 2) = Some 2 \<and>
   box_contains ex_env (contentNode ex_env) 2 \<and>
   \<not> isPointInPolygon \<lparr>px = 50, py = 500\<rparr> ex_polygon \<and>
   pointerGraceArea (handleTrackPointerGrace ex_env (ex_move 50 500 2) ex_transit) = None \<and>
   \<not> isPointerInTransit (handleTrackPointerGrace ex_env (ex_move 50 500 2) ex_transit) \<and>
   pointerExit (handleTrackPointerGrace ex_env (ex_move 50 500 2) ex_transit) = 0 \<and>
   \<not> box_contains ex_env (triggerNode ex_env) 7 \<and> \<not> box_contains ex_env (contentNode ex_env) 7 \<and>
   pointerGraceArea (handleTrackPointerGrace ex_env (ex_move 50 500 7) ex_transit) = None \<and>
   \<not> isPointerInTransit (handleTrackPointerGrace ex_env (ex_move 50 500 7) ex_transit) \<and>
   pointerExit (handleTrackPointerGrace ex_env (ex_move 50 500 7) ex_transit) = 1 \<and>
   isPointInPolygon \<lparr>px = 150, py = 25\<rparr> ex_polygon \<and>
   handleTrackPointerGrace ex_env (ex_move 150 25 7) ex_transit = ex_transit"
proof -
  have p: "pointerGraceArea ex_transit = Some ex_polygon" by (simp add: ex_transit_eq)
  have x: "pointerExit ex_transit = 0" by (simp add: ex_transit_eq)
  have c2: "box_contains ex_env (contentNode ex_env) 2"
    by (simp add: box_contains_def ex_env_def)
  have c7: "\<not> box_contains ex_env (triggerNode ex_env) 7" "\<not> box_contains ex_env (contentNode ex_env) 7"
    by (simp_all add: box_contains_def ex_env_def)
  have t: "target (ex_move a b n) = Some n" "clientX (ex_move a b n) = a" "clientY (ex_move a b n) = b"
    for a b n by (simp_all add: ex_move_def)
  show ?thesis
    using handleTrackPointerGrace_cases [OF p t(1) [of 50 500 2], where env = ex_env]
      handleTrackPointerGrace_cases [OF p t(1) [of 50 500 7], where env = ex_env]
      handleTrackPointerGrace_cases [OF p t(1) [of 150 25 7], where env = ex_env]
    by (simp add: p x c2 c7 t ex_polygon_inside ex_polygon_outside)
qed

lemma step_transit_inv:
  "transit_inv s \<Longrightarrow> ev \<noteq> AutoResetTimer \<Longrightarrow> transit_inv (step env ev s)"
  by (cases ev)
    (auto simp: transit_inv_def handleCreateGraceArea_def handleRemoveGraceArea_def
       handleTrackPointerGrace_def Let_def split: option.splits sum.splits)

lemma run_transit_inv:
  "transit_inv s \<Longrightarrow> AutoResetTimer \<notin> snd ` set evs \<Longrightarrow> transit_inv (run evs s)"
proof (induction evs arbitrary: s)
  case Nil
  then show ?case by simp
next
  case (Cons a evs)
  obtain env ev where a: "a = (env, ev)" by (cases a)
  from Cons.prems have "ev \<noteq> AutoResetTimer" "AutoResetTimer \<notin> snd ` set evs"
    by (auto simp: a)
  with Cons.IH [of "step env ev s"] Cons.prems(1) show ?case
    by (simp add: a step_transit_inv)
qed

lemma track_autoReset:
  "handleTrackPointerGrace env e (autoReset s) = autoReset (handleTrackPointerGrace env e s)"
  by (simp add: handleTrackPointerGrace_def autoReset_def handleRemoveGraceArea_def Let_def
      split: option.splits)




subsection \<open>getHull does not change its argument\<close>

lemma chain_in_store_eq:
  "points < length h \<Longrightarrow>
   chain_in_store h points order =
     (h @ [butlast (chainLoop [] (order (h ! points)))], length h)"
  by (simp add: chain_in_store_def alloc_def nth_append)

lemma getHullPresorted_store_eq:
  assumes "points < length h"
  shows "\<exists>extra r. getHullPresorted_store h points = (h @ extra, r) \<and>
           length h \<le> r \<and> r < length h + length extra \<and>
           (h @ extra) ! r = getHullPresorted (h ! points)"
proof (cases "length (h ! points) \<le> 1")
  case True
  then have "getHullPresorted_store h points = (h @ [h ! points], length h) \<and>
      (h @ [h ! points]) ! length h = getHullPresorted (h ! points)"
    by (simp add: getHullPresorted_store_def getHullPresorted_def slice_def alloc_def)
  then show ?thesis by (intro exI [of _ "[h ! points]"] exI [of _ "length h"]) simp
next
  case False
  define u where "u = butlast (chainLoop [] (h ! points))"
  define l where "l = butlast (chainLoop [] (rev (h ! points)))"
  have c1: "chain_in_store h points (\<lambda>ps. ps) = (h @ [u], length h)"
    using assms by (simp add: chain_in_store_eq u_def)
  have c2: "chain_in_store (h @ [u]) points rev = (h @ [u, l], Suc (length h))"
    using assms chain_in_store_eq [of points "h @ [u]" rev] by (simp add: nth_append l_def)
  have rd: "(h @ [u, l]) ! length h = u" "(h @ [u, l]) ! Suc (length h) = l"
    by (simp_all add: nth_append)
  show ?thesis
  proof (cases "length u = 1 \<and> length l = 1 \<and> px (u ! 0) = px (l ! 0) \<and> py (u ! 0) = py (l ! 0)")
    case True
    then have "getHullPresorted_store h points = (h @ [u, l], length h)"
      using False by (simp add: getHullPresorted_store_def c1 c2 rd)
    moreover have "getHullPresorted (h ! points) = u"
      using False True by (simp add: getHullPresorted_def Let_def u_def l_def)
    ultimately show ?thesis
      by (intro exI [of _ "[u, l]"] exI [of _ "length h"]) (simp add: rd)
  next
    case F2: False
    then have "getHullPresorted_store h points = (h @ [u, l, u @ l], Suc (Suc (length h)))"
      using False by (auto simp add: getHullPresorted_store_def c1 c2 rd alloc_def)
    moreover have "getHullPresorted (h ! points) = u @ l"
      using False F2 by (auto simp add: getHullPresorted_def Let_def u_def l_def)
    ultimately show ?thesis
      by (intro exI [of _ "[u, l, u @ l]"] exI [of _ "Suc (Suc (length h))"]) (simp add: nth_append)
  qed
qed

text \<open>C10: \<^verbatim>\<open>getHull\<close> leaves its argument, and every array that existed before
  the call, as it was; the array it returns is a new one, and holds the hull.\<close>

theorem getHull_store_frame:
  assumes "points < length h" and "getHull_store h points = (h', r)"
  shows "h' ! points = h ! points \<and> (\<forall>a < length h. h' ! a = h ! a) \<and>
         r \<noteq> points \<and> length h \<le> r \<and> r < length h' \<and>
         h' ! r = getHull (h ! points)"
proof -
  let ?h2 = "h @ [sort_by comparePoints (h ! points)]"
  have g: "getHull_store h points = getHullPresorted_store ?h2 (length h)"
    using assms(1) by (simp add: getHull_store_def slice_def alloc_def sort_in_place_def)
  obtain extra r' where e: "getHullPresorted_store ?h2 (length h) = (?h2 @ extra, r')"
    "length ?h2 \<le> r'" "r' < length ?h2 + length extra"
    "(?h2 @ extra) ! r' = getHullPresorted (?h2 ! length h)"
    using getHullPresorted_store_eq [of "length h" ?h2] by auto
  from g e(1) assms(2) have h': "h' = ?h2 @ extra" and r: "r = r'" by simp_all
  show ?thesis
    using e(2-4) assms(1) unfolding h' r by (simp add: nth_append getHull_def)
qed

lemma ex_store_hull:
  "getHull_store ex_store 0 =
    (ex_store @ [[\<lparr>px = 1, py = 1\<rparr>, \<lparr>px = 2, py = 2\<rparr>, \<lparr>px = 2, py = 5\<rparr>, \<lparr>px = 3, py = 1\<rparr>],
       [\<lparr>px = 1, py = 1\<rparr>, \<lparr>px = 2, py = 5\<rparr>], [\<lparr>px = 3, py = 1\<rparr>],
       [\<lparr>px = 1, py = 1\<rparr>, \<lparr>px = 2, py = 5\<rparr>, \<lparr>px = 3, py = 1\<rparr>]], 4)"
  unfolding ex_store_def by code_simp

theorem getHull_store_frame_witness:
  "(0::nat) < length ex_store \<and>
   fst (getHull_store ex_store 0) ! 0 = ex_store ! 0 \<and>
   snd (getHull_store ex_store 0) = 4 \<and>
   fst (getHull_store ex_store 0) ! 4 = getHull (ex_store ! 0)"
  using getHull_store_frame [of 0 ex_store "fst (getHull_store ex_store 0)" "snd (getHull_store ex_store 0)"]
  by (simp add: ex_store_hull) (simp add: ex_store_def)

subsection \<open>Sorting and the pop loop\<close>

lemma popLoop_Nil [simp]: "popLoop p [] = []"
  by (simp add: popLoop.simps)

lemma popLoop_single [simp]: "popLoop p [a] = [a]"
  by (simp add: popLoop.simps)

lemma popLoop_snoc2:
  "popLoop p (hs @ [r, q]) = (if cross r q p \<ge> 0 then popLoop p (hs @ [r]) else hs @ [r, q])"
  by (subst popLoop.simps) (simp add: cross_def nth_append butlast_append)

lemma lexle_refl [simp]: "lexle a a"
  by (simp add: lexle_def)

lemma lexle_trans: "lexle a b \<Longrightarrow> lexle b c \<Longrightarrow> lexle a c"
  by (auto simp: lexle_def)

lemma lexle_total: "lexle a b \<or> lexle b a"
  by (auto simp: lexle_def)

lemma lexle_antisym: "lexle a b \<Longrightarrow> lexle b a \<Longrightarrow> a = (b::Point)"
  by (auto simp: lexle_def)

lemma comparePoints_le: "comparePoints a b \<le> 0 \<longleftrightarrow> lexle a b"
  by (auto simp: comparePoints_def lexle_def)

lemma set_insert_by [simp]: "set (insert_by cmp a xs) = insert a (set xs)"
  by (induction xs) auto

lemma set_sort_by [simp]: "set (sort_by cmp xs) = set xs"
  by (induction xs) auto

lemma length_insert_by [simp]: "length (insert_by cmp a xs) = Suc (length xs)"
  by (induction xs) auto

lemma length_sort_by [simp]: "length (sort_by cmp xs) = length xs"
  by (induction xs) auto

lemma sorted_insert_by:
  "sorted_wrt lexle xs \<Longrightarrow> sorted_wrt lexle (insert_by comparePoints a xs)"
proof (induction xs)
  case Nil
  then show ?case by simp
next
  case (Cons b bs)
  show ?case
  proof (cases "lexle a b")
    case True
    with Cons.prems show ?thesis
      by (auto simp: comparePoints_le intro: lexle_trans)
  next
    case False
    then have "lexle b a" using lexle_total by blast
    with False Cons show ?thesis
      by (auto simp: comparePoints_le)
  qed
qed

lemma sorted_sort_by: "sorted_wrt lexle (sort_by comparePoints xs)"
  by (induction xs) (simp_all add: sorted_insert_by)

lemma sorted_hd_min: "sorted_wrt lexle xs \<Longrightarrow> z \<in> set xs \<Longrightarrow> lexle (hd xs) z"
  by (cases xs) auto

lemma sorted_last_max: "sorted_wrt lexle xs \<Longrightarrow> z \<in> set xs \<Longrightarrow> lexle z (last xs)"
  by (induction xs) (auto split: if_splits)

subsection \<open>Degenerate hulls\<close>

lemma popLoop_collinear:
  "(\<forall>a \<in> set hs. \<forall>b \<in> set hs. cross a b p = 0) \<Longrightarrow> popLoop p hs = take 1 hs"
proof (induction hs rule: rev_induct)
  case Nil
  then show ?case by simp
next
  case (snoc q hs)
  show ?case
  proof (cases hs rule: rev_cases)
    case Nil
    then show ?thesis by simp
  next
    case (snoc hs' r)
    have "cross r q p = 0" using snoc.prems by (simp add: snoc)
    moreover have "popLoop p hs = take 1 hs" using snoc.IH snoc.prems by simp
    ultimately show ?thesis by (simp add: snoc popLoop_snoc2) (cases hs'; simp)
  qed
qed

lemma chainLoop_collinear:
  "collinear_points (hs @ ps) \<Longrightarrow> hs \<noteq> [] \<Longrightarrow> ps \<noteq> [] \<Longrightarrow> chainLoop hs ps = [hd hs, last ps]"
proof (induction ps arbitrary: hs)
  case Nil
  then show ?case by simp
next
  case (Cons p ps)
  have pl: "popLoop p hs = [hd hs]"
    using popLoop_collinear [of hs p] Cons.prems(1,2)
    by (cases hs) (auto simp: collinear_points_def)
  show ?case
  proof (cases "ps = []")
    case True
    then show ?thesis by (simp add: pl)
  next
    case False
    have "collinear_points ([hd hs, p] @ ps)"
      using Cons.prems(1,2) by (cases hs) (auto simp: collinear_points_def)
    from Cons.IH [OF this _ False] False show ?thesis by (simp add: pl)
  qed
qed

lemma Point_eq_iff: "(a::Point) = b \<longleftrightarrow> px a = px b \<and> py a = py b"
  by auto

lemma chainLoop_Nil_collinear:
  assumes "collinear_points xs" and "2 \<le> length xs"
  shows "chainLoop [] xs = [hd xs, last xs]"
proof -
  obtain a ys where xs: "xs = a # ys" and ys: "ys \<noteq> []"
    using assms(2) by (cases xs) (auto simp: Suc_le_eq)
  show ?thesis
    using chainLoop_collinear [of "[a]" ys] assms(1) ys by (simp add: xs)
qed

lemma getHullPresorted_collinear:
  assumes "collinear_points xs" and "2 \<le> length xs"
  shows "getHullPresorted xs = (if hd xs = last xs then [hd xs] else [hd xs, last xs])"
proof -
  have ne: "xs \<noteq> []" using assms(2) by auto
  have u: "chainLoop [] xs = [hd xs, last xs]"
    using assms by (rule chainLoop_Nil_collinear)
  have "collinear_points (rev xs)"
    using assms(1) by (simp add: collinear_points_def)
  then have l: "chainLoop [] (rev xs) = [last xs, hd xs]"
    using chainLoop_Nil_collinear [of "rev xs"] assms(2) ne by (simp add: hd_rev last_rev)
  show ?thesis
    using assms(2) by (auto simp: getHullPresorted_def u l Point_eq_iff)
qed

lemma hd_last_singleton_set:
  assumes "set xs = {p}"
  shows "hd xs = p" and "last xs = p"
proof -
  have ne: "xs \<noteq> []" using assms by auto
  show "hd xs = p" using hd_in_set [OF ne] assms by simp
  show "last xs = p" using last_in_set [OF ne] assms by simp
qed

lemma two_distinct_length:
  assumes "u \<in> set xs" and "v \<in> set xs" and "u \<noteq> v"
  shows "2 \<le> length xs"
proof (rule ccontr)
  assume "\<not> 2 \<le> length xs"
  then have "length xs \<le> 1" by simp
  then have "xs = [] \<or> (\<exists>a. xs = [a])" by (cases xs) auto
  with assms show False by auto
qed

lemma getHull_all_equal:
  assumes "ps \<noteq> []" and "\<forall>q \<in> set ps. q = p"
  shows "getHull ps = [p]"
proof -
  define xs where "xs = sort_by comparePoints ps"
  have s: "set xs = {p}" using assms by (cases ps) (auto simp: xs_def)
  then have ne: "xs \<noteq> []" by auto
  note hl = hd_last_singleton_set [OF s]
  show "getHull ps = [p]"
  proof (cases "2 \<le> length xs")
    case True
    have "collinear_points xs" using s by (simp add: collinear_points_def cross_def)
    from getHullPresorted_collinear [OF this True] show ?thesis
      by (simp add: getHull_def xs_def [symmetric] hl)
  next
    case False
    then have "xs = [p]" using ne hl by (cases xs) (auto simp: not_le less_Suc_eq)
    then show ?thesis by (simp add: getHull_def xs_def [symmetric] getHullPresorted_def)
  qed
qed

lemma getHull_collinear:
  assumes col: "collinear_points ps" and uv: "u \<in> set ps" "v \<in> set ps" "u \<noteq> v"
  defines "xs \<equiv> sort_by comparePoints ps"
  shows "getHull ps = [hd xs, last xs]" and "hd xs \<noteq> last xs"
    and "hd xs \<in> set ps" and "last xs \<in> set ps"
    and "\<forall>q \<in> set ps. lexle (hd xs) q \<and> lexle q (last xs)"
proof -
  have s: "set xs = set ps" by (simp add: xs_def)
  have srt: "sorted_wrt lexle xs" by (simp add: xs_def sorted_sort_by)
  have ux: "u \<in> set xs" and vx: "v \<in> set xs" using uv(1,2) by (simp_all only: s)
  have ne: "xs \<noteq> []" using ux by (cases xs) simp_all
  have len: "2 \<le> length xs"
    using ux vx uv(3) by (rule two_distinct_length)
  have colx: "collinear_points xs" using col by (simp only: collinear_points_def s)
  have bound: "lexle (hd xs) q \<and> lexle q (last xs)" if "q \<in> set xs" for q
    using srt that by (simp add: sorted_hd_min sorted_last_max)
  then show "\<forall>q \<in> set ps. lexle (hd xs) q \<and> lexle q (last xs)"
    by (simp only: s [symmetric]) blast
  show d: "hd xs \<noteq> last xs"
  proof
    assume e: "hd xs = last xs"
    have "u = hd xs" using bound [OF ux] e by (simp add: lexle_antisym)
    moreover have "v = hd xs" using bound [OF vx] e by (simp add: lexle_antisym)
    ultimately show False using uv(3) by simp
  qed
  show "getHull ps = [hd xs, last xs]"
    using getHullPresorted_collinear [OF colx len] d by (simp add: getHull_def xs_def [symmetric])
  have "hd xs \<in> set xs" "last xs \<in> set xs" using ne by simp_all
  then show "hd xs \<in> set ps" "last xs \<in> set ps" by (simp_all only: s)
qed


lemma ex_line_collinear: "collinear_points ex_line"
  by (simp add: collinear_points_def ex_line_def cross_def)


subsection \<open>Four points in the plane\<close>

lemma cross_same [simp]: "cross a b b = 0" "cross a a b = 0" "cross a b a = 0"
  by (simp_all add: cross_def)

lemma cross_swap: "cross a c b = - cross a b c"
  by (simp add: cross_def algebra_simps)

lemma lexle_coords:
  "lexle a b \<Longrightarrow> px a \<le> px b"
  "lexle a b \<Longrightarrow> px a = px b \<Longrightarrow> py a \<le> py b"
  by (auto simp: lexle_def)

text \<open>When \<open>q\<close> is popped between \<open>r\<close> and \<open>p\<close>, a point that was below the edge from
  \<open>r\<close> to \<open>q\<close> is below the edge from \<open>r\<close> to \<open>p\<close>.\<close>

lemma merge_left:
  assumes "lexle r z" "lexle z q" "lexle q p" "cross r q z \<le> 0" "cross r q p \<ge> 0"
  shows "cross r p z \<le> 0"
proof -
  have id: "cross r p z * (px q - px r) =
      cross r q z * (px p - px r) - cross r q p * (px z - px r)"
    by (simp add: cross_def algebra_simps)
  have x: "px r \<le> px z" "px z \<le> px q" "px q \<le> px p"
    using assms(1-3) by (simp_all add: lexle_coords)
  show ?thesis
  proof (cases "px r < px q")
    case True
    have "cross r q z * (px p - px r) \<le> 0"
      using assms(4) x by (simp add: mult_nonpos_nonneg)
    moreover have "cross r q p * (px z - px r) \<ge> 0"
      using assms(5) x by simp
    ultimately have "cross r p z * (px q - px r) \<le> 0" unfolding id by simp
    with True show ?thesis by (simp add: mult_le_0_iff)
  next
    case False
    then have e: "px q = px r" "px z = px r" using x by simp_all
    then have y: "py r \<le> py z" "py z \<le> py q"
      using assms(1,2) by (simp_all add: lexle_def)
    have "(py q - py r) * (px p - px r) \<le> 0"
      using assms(5) e by (simp add: cross_def)
    moreover have "(py q - py r) * (px p - px r) \<ge> 0" using x y e by simp
    ultimately have z: "(py q - py r) * (px p - px r) = 0" by simp
    have "(py z - py r) * (px p - px r) \<le> (py q - py r) * (px p - px r)"
      using y x e by (intro mult_right_mono) simp_all
    moreover have "(py z - py r) * (px p - px r) \<ge> 0" using x y e by simp
    ultimately have "(py z - py r) * (px p - px r) = 0" using z by simp
    then show ?thesis using e by (simp add: cross_def algebra_simps)
  qed
qed

text \<open>The same for a point that was below the edge from \<open>q\<close> to \<open>p\<close>.\<close>

lemma merge_right:
  assumes "lexle r q" "lexle q z" "lexle z p" "cross q p z \<le> 0" "cross r q p \<ge> 0"
  shows "cross r p z \<le> 0"
proof -
  have id: "cross r p z * (px p - px q) =
      cross q p z * (px p - px r) - cross r q p * (px p - px z)"
    by (simp add: cross_def algebra_simps)
  have x: "px r \<le> px q" "px q \<le> px z" "px z \<le> px p"
    using assms(1-3) by (simp_all add: lexle_coords)
  show ?thesis
  proof (cases "px q < px p")
    case True
    have "cross q p z * (px p - px r) \<le> 0"
      using assms(4) x by (simp add: mult_nonpos_nonneg)
    moreover have "cross r q p * (px p - px z) \<ge> 0"
      using assms(5) x by simp
    ultimately have "cross r p z * (px p - px q) \<le> 0" unfolding id by simp
    with True show ?thesis by (simp add: mult_le_0_iff)
  next
    case False
    then have e: "px q = px p" "px z = px p" using x by simp_all
    then have y: "py z \<le> py p"
      using assms(3) by (simp_all add: lexle_def)
    have "(px p - px r) * (py p - py z) \<ge> 0" using x y e by simp
    then show ?thesis using e by (simp add: cross_def algebra_simps)
  qed
qed

text \<open>A point below the line of an edge, and before its end, is below the line of the
  next edge.\<close>

lemma below_next:
  assumes "lexle a b" "lexle b c" "lexle z b" "cross a b z \<le> 0" "cross a b c < 0"
  shows "cross b c z \<le> 0"
proof -
  have id: "cross b c z * (px b - px a) =
      cross a b z * (px c - px b) - cross a b c * (px z - px b)"
    by (simp add: cross_def algebra_simps)
  have x: "px a \<le> px b" "px b \<le> px c" "px z \<le> px b"
    using assms(1-3) by (simp_all add: lexle_coords)
  show ?thesis
  proof (cases "px a < px b")
    case True
    have "cross a b z * (px c - px b) \<le> 0"
      using assms(4) x by (simp add: mult_nonpos_nonneg)
    moreover have "cross a b c * (px z - px b) \<ge> 0"
      using assms(5) x by (simp add: mult_nonpos_nonpos)
    ultimately have "cross b c z * (px b - px a) \<le> 0" unfolding id by simp
    with True show ?thesis by (simp add: mult_le_0_iff)
  next
    case False
    then have e: "px a = px b" using x by simp
    then have ya: "py a \<le> py b" using assms(1) by (simp add: lexle_def)
    have c: "(py b - py a) * (px c - px b) > 0"
      using assms(5) e by (simp add: cross_def algebra_simps)
    then have s: "py a < py b" "px b < px c"
      using ya x by (auto simp: zero_less_mult_iff)
    have "(py b - py a) * (px z - px b) \<ge> 0"
      using assms(4) e by (simp add: cross_def algebra_simps)
    then have "px z \<ge> px b" using s by (simp add: zero_le_mult_iff)
    then have ez: "px z = px b" using x by simp
    then have "py z \<le> py b" using assms(3) by (simp add: lexle_def)
    then have "(px c - px b) * (py z - py b) \<le> 0"
      using s by (simp add: mult_le_0_iff)
    then show ?thesis using ez by (simp add: cross_def algebra_simps)
  qed
qed

text \<open>A point below the line of an edge, and after its start, is below the line of the
  edge before.\<close>

lemma below_prev:
  assumes "lexle a b" "lexle b c" "lexle b z" "cross b c z \<le> 0" "cross a b c < 0"
  shows "cross a b z \<le> 0"
proof -
  have id: "cross a b z * (px c - px b) =
      cross b c z * (px b - px a) + cross a b c * (px z - px b)"
    by (simp add: cross_def algebra_simps)
  have x: "px a \<le> px b" "px b \<le> px c" "px b \<le> px z"
    using assms(1-3) by (simp_all add: lexle_coords)
  show ?thesis
  proof (cases "px b < px c")
    case True
    have "cross b c z * (px b - px a) \<le> 0"
      using assms(4) x by (simp add: mult_nonpos_nonneg)
    moreover have "cross a b c * (px z - px b) \<le> 0"
      using assms(5) x by (simp add: mult_nonpos_nonneg)
    ultimately have "cross a b z * (px c - px b) \<le> 0" unfolding id by simp
    with True show ?thesis by (simp add: mult_le_0_iff)
  next
    case False
    then have e: "px c = px b" using x by simp
    then have yc: "py b \<le> py c" using assms(2) by (simp add: lexle_def)
    have "(py c - py b) * (px b - px a) < 0"
      using assms(5) e by (simp add: cross_def algebra_simps)
    moreover have "(py c - py b) * (px b - px a) \<ge> 0" using yc x by simp
    ultimately show ?thesis by simp
  qed
qed

subsection \<open>Lists of pairs, chains and the pop loop\<close>

lemma pairs_snoc2 [simp]: "pairs (xs @ [a, b]) = pairs (xs @ [a]) @ [(a, b)]"
  by (induction xs rule: pairs.induct) auto

lemma pairs_single [simp]: "pairs [a] = []"
  by simp

lemma pairs_Cons: "ys \<noteq> [] \<Longrightarrow> pairs (v # ys) = (v, hd ys) # pairs ys"
  by (cases ys) simp_all

lemma pairs_append:
  "xs \<noteq> [] \<Longrightarrow> ys \<noteq> [] \<Longrightarrow> pairs (xs @ ys) = pairs xs @ [(last xs, hd ys)] @ pairs ys"
  by (induction xs rule: pairs.induct) (simp_all add: pairs_Cons)

lemma pairs_decomp:
  "(a, b) \<in> set (pairs hs) \<Longrightarrow> \<exists>pre post. hs = pre @ a # b # post"
proof (induction hs rule: pairs.induct)
  case (1 c d xs)
  show ?case
  proof (cases "(a, b) = (c, d)")
    case True
    then show ?thesis by (intro exI [of _ "[]"] exI [of _ xs]) simp
  next
    case False
    with 1 obtain pre post where "d # xs = pre @ a # b # post" by auto
    then have "c # d # xs = (c # pre) @ a # b # post" by simp
    then show ?thesis by blast
  qed
qed simp_all

lemma right_turns_snoc3 [simp]:
  "right_turns (xs @ [a, b, c]) = (right_turns (xs @ [a, b]) \<and> cross a b c < 0)"
  by (induction xs rule: right_turns.induct) auto

lemma right_turns_prefix: "right_turns (xs @ ys) \<Longrightarrow> right_turns xs"
  by (induction xs rule: right_turns.induct) auto

lemma right_turns_tl: "right_turns (a # xs) \<Longrightarrow> right_turns xs"
  by (cases xs; cases "tl xs") auto

lemma right_turns_suffix: "right_turns (xs @ ys) \<Longrightarrow> right_turns ys"
  by (induction xs) (auto dest: right_turns_tl)

text \<open>An induction rule that follows the pop loop.\<close>

lemma popLoop_induct [case_names Nil One Two]:
  assumes "P []" and "\<And>a. P [a]"
    and "\<And>hs r q. (cross r q p \<ge> 0 \<Longrightarrow> P (hs @ [r])) \<Longrightarrow> P (hs @ [r, q])"
  shows "P hs"
proof (induction hs rule: rev_induct)
  case Nil
  show ?case by (rule assms(1))
next
  case (snoc q hs)
  show ?case
  proof (cases hs rule: rev_cases)
    case Nil
    then show ?thesis by (simp add: assms(2))
  next
    case (snoc hs' r)
    with snoc.IH assms(3) [of r q hs'] show ?thesis by simp
  qed
qed

lemma popLoop_prefix: "\<exists>rest. hs = popLoop p hs @ rest"
proof (induction hs rule: popLoop_induct [where p = p])
  case (Two hs r q)
  show ?case
  proof (cases "cross r q p \<ge> 0")
    case True
    then have pl: "popLoop p (hs @ [r, q]) = popLoop p (hs @ [r])"
      by (simp add: popLoop_snoc2)
    from Two True obtain rest where "hs @ [r] = popLoop p (hs @ [r]) @ rest" by blast
    then have "(hs @ [r]) @ [q] = (popLoop p (hs @ [r]) @ rest) @ [q]"
      by (rule arg_cong [where f = "\<lambda>l. l @ [q]"])
    then have "hs @ [r, q] = popLoop p (hs @ [r]) @ (rest @ [q])" by simp
    then show ?thesis unfolding pl by (rule exI)
  next
    case False
    then show ?thesis by (simp add: popLoop_snoc2)
  qed
qed simp_all

lemma popLoop_Nil_iff [simp]: "popLoop p hs = [] \<longleftrightarrow> hs = []"
  by (induction hs rule: popLoop_induct [where p = p]) (simp_all add: popLoop_snoc2)

lemma hd_popLoop [simp]: "hd (popLoop p hs) = hd hs"
proof (cases "hs = []")
  case False
  obtain rest where r: "hs = popLoop p hs @ rest" using popLoop_prefix by blast
  have "popLoop p hs \<noteq> []" using False by simp
  then have "hd (popLoop p hs @ rest) = hd (popLoop p hs)" by simp
  then show ?thesis using r by simp
qed simp

lemma right_turns_popLoop:
  "right_turns hs \<Longrightarrow> right_turns (popLoop p hs @ [p])"
proof (induction hs rule: popLoop_induct [where p = p])
  case (Two hs r q)
  show ?case
  proof (cases "cross r q p \<ge> 0")
    case True
    have "right_turns (hs @ [r])"
      using Two.prems right_turns_prefix [of "hs @ [r]" "[q]"] by simp
    with Two.IH True show ?thesis by (simp add: popLoop_snoc2)
  next
    case False
    with Two.prems show ?thesis by (simp add: popLoop_snoc2)
  qed
qed simp_all

lemma pairs_snoc3: "pairs (xs @ [a, b, c]) = pairs (xs @ [a]) @ [(a, b), (b, c)]"
  using pairs_snoc2 [of "xs @ [a]" b c] by simp

lemma below_snoc2:
  "below (hs @ [r, p]) z \<longleftrightarrow>
     below (hs @ [r]) z \<or> (lexle r z \<and> lexle z p \<and> cross r p z \<le> 0)"
  by (auto simp: below_def)

lemma below_snoc3:
  "below (hs @ [r, q, p]) z \<longleftrightarrow>
     below (hs @ [r]) z \<or> (lexle r z \<and> lexle z q \<and> cross r q z \<le> 0)
       \<or> (lexle q z \<and> lexle z p \<and> cross q p z \<le> 0)"
  by (auto simp: below_def pairs_snoc3)

lemma pop_below:
  assumes "sorted_wrt lexle (hs @ [p])" and "below (hs @ [p]) z"
  shows "below (popLoop p hs @ [p]) z"
  using assms
proof (induction hs rule: popLoop_induct [where p = p])
  case (Two hs r q)
  show ?case
  proof (cases "cross r q p \<ge> 0")
    case False
    with Two.prems show ?thesis by (simp add: popLoop_snoc2)
  next
    case True
    have o: "lexle r q" "lexle q p" "lexle r p"
      using Two.prems(1) by (simp_all add: sorted_wrt_append)
    have s: "sorted_wrt lexle ((hs @ [r]) @ [p])"
      using Two.prems(1) by (simp add: sorted_wrt_append)
    have b3: "below (hs @ [r, q, p]) z" using Two.prems(2) by simp
    have "below (hs @ [r, p]) z"
      using b3 unfolding below_snoc3 below_snoc2
    proof (elim disjE conjE)
      assume "below (hs @ [r]) z"
      then show "below (hs @ [r]) z \<or> lexle r z \<and> lexle z p \<and> cross r p z \<le> 0" ..
    next
      assume a: "lexle r z" "lexle z q" "cross r q z \<le> 0"
      have "cross r p z \<le> 0" using a(1,2) o(2) a(3) True by (rule merge_left)
      moreover have "lexle z p" using a(2) o(2) by (rule lexle_trans)
      ultimately show "below (hs @ [r]) z \<or> lexle r z \<and> lexle z p \<and> cross r p z \<le> 0"
        using a(1) by simp
    next
      assume a: "lexle q z" "lexle z p" "cross q p z \<le> 0"
      have "cross r p z \<le> 0" using o(1) a(1,2,3) True by (rule merge_right)
      moreover have "lexle r z" using o(1) a(1) by (rule lexle_trans)
      ultimately show "below (hs @ [r]) z \<or> lexle r z \<and> lexle z p \<and> cross r p z \<le> 0"
        using a(2) by simp
    qed
    then have "below ((hs @ [r]) @ [p]) z" by simp
    from Two.IH [OF True s this] True show ?thesis by (simp add: popLoop_snoc2)
  qed
qed simp_all

subsection \<open>The invariant of a chain\<close>

lemma pairs_mid: "(a, b) \<in> set (pairs (pre @ a # b # post))"
  by (induction pre rule: pairs.induct) auto

lemma set_pairs_append: "set (pairs hs) \<subseteq> set (pairs (hs @ ys))"
proof (cases "hs = [] \<or> ys = []")
  case True
  then show ?thesis by auto
next
  case False
  then show ?thesis by (auto simp: pairs_append)
qed

lemma below_append: "below hs z \<Longrightarrow> below (hs @ ys) z"
  using set_pairs_append [of hs ys] unfolding below_def by blast

lemma below_member:
  assumes "sorted_wrt lexle (hs @ [p])" and "z \<in> set hs"
  shows "below (hs @ [p]) z"
proof -
  from assms(2) obtain pre post where hs: "hs = pre @ z # post"
    by (auto simp: in_set_conv_decomp)
  obtain b rest where pp: "post @ [p] = b # rest" by (cases post) auto
  have eq: "hs @ [p] = pre @ z # b # rest" using hs pp by simp
  have "lexle z b" using assms(1) unfolding eq by (simp add: sorted_wrt_append)
  moreover have "(z, b) \<in> set (pairs (hs @ [p]))" unfolding eq by (rule pairs_mid)
  ultimately show ?thesis unfolding below_def by (intro bexI [of _ "(z, b)"]) simp_all
qed

lemma below_pushed:
  assumes "sorted_wrt lexle (hs @ [p])" and "hs \<noteq> []"
  shows "below (hs @ [p]) p"
proof -
  obtain hs' l where hs: "hs = hs' @ [l]" using assms(2) by (cases hs rule: rev_cases) auto
  have "lexle l p" using assms(1) by (simp add: hs sorted_wrt_append)
  then show ?thesis by (simp add: hs below_snoc2)
qed

lemma chain_inv_step:
  assumes "chain_inv hs Z" and "\<forall>z \<in> Z. lexle z p"
  shows "chain_inv (popLoop p hs @ [p]) (insert p Z)"
proof -
  from assms(1) have ne: "hs \<noteq> []" and srt: "sorted_wrt lexle hs" and rt: "right_turns hs"
    and sub: "set hs \<subseteq> Z" and cov: "\<forall>z \<in> Z. z \<in> set hs \<or> below hs z"
    by (simp_all add: chain_inv_def)
  obtain rest where pre: "hs = popLoop p hs @ rest" using popLoop_prefix by blast
  have sp: "sorted_wrt lexle (hs @ [p])"
    using srt sub assms(2) by (auto simp: sorted_wrt_append)
  have subp: "set (popLoop p hs) \<subseteq> set hs"
    using pre by (metis Un_upper1 set_append)
  have "sorted_wrt lexle (popLoop p hs)"
    using srt pre by (metis sorted_wrt_append)
  then have s': "sorted_wrt lexle (popLoop p hs @ [p])"
    using subp sub assms(2) by (auto simp: sorted_wrt_append)
  have c': "below (popLoop p hs @ [p]) z" if "z \<in> insert p Z" for z
  proof -
    have "below (hs @ [p]) z"
    proof (cases "z = p")
      case True
      then show ?thesis using below_pushed [OF sp ne] by simp
    next
      case False
      with that cov have "z \<in> set hs \<or> below hs z" by auto
      then show ?thesis using below_member [OF sp] below_append by blast
    qed
    with sp show ?thesis by (rule pop_below)
  qed
  show ?thesis
    unfolding chain_inv_def
    using s' right_turns_popLoop [OF rt] subp sub c' by auto
qed

lemma chain_inv_chainLoop:
  "chain_inv hs Z \<Longrightarrow> sorted_wrt lexle ps \<Longrightarrow> \<forall>z \<in> Z. \<forall>p \<in> set ps. lexle z p \<Longrightarrow>
   chain_inv (chainLoop hs ps) (Z \<union> set ps)"
proof (induction ps arbitrary: hs Z)
  case Nil
  then show ?case by simp
next
  case (Cons p ps)
  have 1: "chain_inv (popLoop p hs @ [p]) (insert p Z)"
    using Cons.prems(1,3) by (intro chain_inv_step) simp_all
  have 2: "sorted_wrt lexle ps" using Cons.prems(2) by simp
  have 3: "\<forall>z \<in> insert p Z. \<forall>q \<in> set ps. lexle z q"
    using Cons.prems(2,3) by auto
  from Cons.IH [OF 1 2 3] show ?case by simp
qed

lemma hd_chainLoop: "hs \<noteq> [] \<Longrightarrow> hd (chainLoop hs ps) = hd hs"
  by (induction ps arbitrary: hs) simp_all

lemma last_chainLoop: "ps \<noteq> [] \<Longrightarrow> last (chainLoop hs ps) = last ps"
proof (induction ps arbitrary: hs)
  case (Cons p ps)
  then show ?case by (cases "ps = []") simp_all
qed simp

lemma length_chainLoop_ge2: "2 \<le> length hs \<Longrightarrow> 2 \<le> length (chainLoop hs ps)"
proof (induction ps arbitrary: hs)
  case (Cons p ps)
  have "popLoop p hs \<noteq> []" using Cons.prems by auto
  then have "2 \<le> length (popLoop p hs @ [p])" by (cases "popLoop p hs") simp_all
  then show ?case using Cons.IH by simp
qed simp

subsection \<open>Every visited point is below every edge of the chain\<close>

lemma below_all_right:
  "sorted_wrt lexle (a # b # rest) \<Longrightarrow> right_turns (a # b # rest) \<Longrightarrow>
   lexle z b \<Longrightarrow> cross a b z \<le> 0 \<Longrightarrow>
   \<forall>(c, d) \<in> set (pairs (b # rest)). cross c d z \<le> 0"
proof (induction rest arbitrary: a b)
  case Nil
  then show ?case by simp
next
  case (Cons c rest)
  have o: "lexle a b" "lexle b c" using Cons.prems(1) by simp_all
  have t: "cross a b c < 0" using Cons.prems(2) by simp
  have 1: "cross b c z \<le> 0"
    using o Cons.prems(3,4) t by (rule below_next)
  have 2: "lexle z c" using Cons.prems(3) o(2) by (rule lexle_trans)
  have 3: "sorted_wrt lexle (b # c # rest)" using Cons.prems(1) by simp
  have 4: "right_turns (b # c # rest)" using Cons.prems(2) by simp
  from Cons.IH [OF 3 4 2 1] 1 show ?case by simp
qed

lemma below_all_left:
  "sorted_wrt lexle (pre @ [a, b]) \<Longrightarrow> right_turns (pre @ [a, b]) \<Longrightarrow>
   lexle a z \<Longrightarrow> cross a b z \<le> 0 \<Longrightarrow>
   \<forall>(c, d) \<in> set (pairs (pre @ [a])). cross c d z \<le> 0"
proof (induction pre arbitrary: a b rule: rev_induct)
  case Nil
  then show ?case by simp
next
  case (snoc c pre)
  have o: "lexle c a" "lexle a b"
    using snoc.prems(1) by (simp_all add: sorted_wrt_append)
  have t: "cross c a b < 0" using snoc.prems(2) by simp
  have 1: "cross c a z \<le> 0"
    using o snoc.prems(3,4) t by (rule below_prev)
  have 2: "lexle c z" using o(1) snoc.prems(3) by (rule lexle_trans)
  have 3: "sorted_wrt lexle (pre @ [c, a])"
    using snoc.prems(1) by (simp add: sorted_wrt_append)
  have 4: "right_turns (pre @ [c, a])" using snoc.prems(2) by simp
  from snoc.IH [OF 3 4 2 1] 1 show ?case by simp
qed

lemma below_all:
  assumes "sorted_wrt lexle hs" and "right_turns hs" and "below hs z"
  shows "\<forall>(c, d) \<in> set (pairs hs). cross c d z \<le> 0"
proof -
  from assms(3) obtain a b where ab: "(a, b) \<in> set (pairs hs)"
    and z: "lexle a z" "lexle z b" "cross a b z \<le> 0"
    by (auto simp: below_def)
  from pairs_decomp [OF ab] obtain pre post where hs: "hs = pre @ a # b # post" by blast
  have hs1: "hs = (pre @ [a, b]) @ post" and hs2: "hs = pre @ (a # b # post)"
    by (simp_all add: hs)
  have s1: "sorted_wrt lexle (pre @ [a, b])"
    using assms(1) unfolding hs1 sorted_wrt_append [of _ "pre @ [a, b]"] by (elim conjE)
  have s2: "sorted_wrt lexle (a # b # post)"
    using assms(1) unfolding hs2 sorted_wrt_append [of _ pre] by (elim conjE)
  have r1: "right_turns (pre @ [a, b])" using assms(2) unfolding hs1 by (rule right_turns_prefix)
  have r2: "right_turns (a # b # post)" using assms(2) unfolding hs2 by (rule right_turns_suffix)
  have p: "pairs hs = pairs (pre @ [a]) @ [(a, b)] @ pairs (b # post)"
    using pairs_append [of "pre @ [a]" "b # post"] by (simp add: hs)
  show ?thesis
    unfolding p using below_all_left [OF s1 r1 z(1,3)] below_all_right [OF s2 r2 z(2,3)] z(3)
    by auto
qed

lemma chain_inv_all:
  assumes "chain_inv hs Z" and "z \<in> Z"
  shows "\<forall>(c, d) \<in> set (pairs hs). cross c d z \<le> 0"
proof (cases "below hs z")
  case True
  from assms(1) have "sorted_wrt lexle hs" "right_turns hs" by (simp_all add: chain_inv_def)
  then show ?thesis using True by (rule below_all)
next
  case False
  with assms have m: "z \<in> set hs" and s: "sorted_wrt lexle hs" and r: "right_turns hs"
    by (auto simp: chain_inv_def)
  show ?thesis
  proof (cases hs rule: rev_cases)
    case Nil
    then show ?thesis by simp
  next
    case (snoc hs' l)
    show ?thesis
    proof (cases "z \<in> set hs'")
      case True
      have "below (hs' @ [l]) z" using s True unfolding snoc by (rule below_member)
      with False snoc show ?thesis by simp
    next
      case F2: False
      then have zl: "z = l" using m snoc by simp
      show ?thesis
      proof (cases hs' rule: rev_cases)
        case Nil
        then show ?thesis by (simp add: snoc)
      next
        case (snoc hs'' k)
        have "lexle k l" using s by (simp add: \<open>hs = hs' @ [l]\<close> snoc sorted_wrt_append)
        then have "below hs z" by (simp add: \<open>hs = hs' @ [l]\<close> snoc below_snoc2 zl)
        with False show ?thesis by simp
      qed
    qed
  qed
qed

text \<open>The chain built from a sorted list.\<close>

lemma chainLoop_sorted:
  assumes "sorted_wrt lexle xs" and "xs \<noteq> []"
  shows "chain_inv (chainLoop [] xs) (set xs)"
    and "hd (chainLoop [] xs) = hd xs"
    and "last (chainLoop [] xs) = last xs"
    and "2 \<le> length xs \<Longrightarrow> 2 \<le> length (chainLoop [] xs)"
proof -
  obtain p ps where xs: "xs = p # ps" using assms(2) by (cases xs) auto
  have c: "chainLoop [] xs = chainLoop [p] ps" by (simp add: xs)
  have i: "chain_inv [p] {p}" by (simp add: chain_inv_def)
  have "chain_inv (chainLoop [p] ps) ({p} \<union> set ps)"
    using i assms(1) by (intro chain_inv_chainLoop) (simp_all add: xs)
  then show "chain_inv (chainLoop [] xs) (set xs)" by (simp add: c xs)
  show "hd (chainLoop [] xs) = hd xs" by (simp add: c hd_chainLoop xs)
  show "last (chainLoop [] xs) = last xs"
    by (cases "ps = []") (simp_all add: c last_chainLoop xs)
  show "2 \<le> length (chainLoop [] xs)" if "2 \<le> length xs"
  proof -
    from that obtain q qs where ps: "ps = q # qs" by (cases ps) (auto simp: xs)
    have "2 \<le> length (popLoop q [p] @ [q])" by simp
    then show ?thesis unfolding c ps chainLoop.simps by (rule length_chainLoop_ge2)
  qed
qed

subsection \<open>The lower chain\<close>

lemma neg_neg [simp]: "neg (neg p) = p"
  by (simp add: neg_def)

lemma map_neg_neg [simp]: "map neg (map neg xs) = xs"
  by (induction xs) simp_all

lemma cross_neg [simp]: "cross (neg a) (neg b) (neg c) = cross a b c"
  by (simp add: cross_def neg_def algebra_simps)

lemma lexle_neg [simp]: "lexle (neg a) (neg b) = lexle b a"
  by (auto simp: lexle_def neg_def)

lemma popLoop_neg: "popLoop (neg p) (map neg hs) = map neg (popLoop p hs)"
proof (induction hs rule: popLoop_induct [where p = p])
  case (Two hs r q)
  have "popLoop (neg p) (map neg hs @ [neg r, neg q]) =
      (if cross r q p \<ge> 0 then popLoop (neg p) (map neg hs @ [neg r])
       else map neg hs @ [neg r, neg q])"
    by (simp add: popLoop_snoc2)
  with Two show ?case by (simp add: popLoop_snoc2)
qed simp_all

lemma chainLoop_neg: "chainLoop (map neg hs) (map neg ps) = map neg (chainLoop hs ps)"
proof (induction ps arbitrary: hs)
  case (Cons p ps)
  have "popLoop (neg p) (map neg hs) @ [neg p] = map neg (popLoop p hs @ [p])"
    by (simp add: popLoop_neg)
  then show ?case using Cons.IH [of "popLoop p hs @ [p]"] by simp
qed simp

lemma sorted_neg_rev: "sorted_wrt lexle xs \<Longrightarrow> sorted_wrt lexle (map neg (rev xs))"
  by (simp add: sorted_wrt_map sorted_wrt_rev)

lemma pairs_map: "pairs (map f xs) = map (\<lambda>(a, b). (f a, f b)) (pairs xs)"
  by (induction xs rule: pairs.induct) simp_all

lemma right_turns_neg [simp]: "right_turns (map neg hs) = right_turns hs"
  by (induction hs rule: right_turns.induct) simp_all

text \<open>The two chains of a sorted list, as the loops leave them.\<close>

lemma upper_chain_ok:
  assumes "sorted_wrt lexle xs" and "xs \<noteq> []"
  shows "chain_ok xs (chainLoop [] xs)"
proof -
  note i = chainLoop_sorted(1) [OF assms]
  then have "right_turns (chainLoop [] xs)" "set (chainLoop [] xs) \<subseteq> set xs"
    by (simp_all add: chain_inv_def)
  then show ?thesis using chain_inv_all [OF i] by (simp add: chain_ok_def)
qed

lemma lower_chain_ok:
  assumes "sorted_wrt lexle xs" and "xs \<noteq> []"
  shows "chain_ok xs (chainLoop [] (rev xs))"
proof -
  define ys where "ys = map neg (rev xs)"
  define L where "L = chainLoop [] (rev xs)"
  have ys: "sorted_wrt lexle ys" "ys \<noteq> []"
    using assms by (simp_all add: ys_def sorted_neg_rev)
  have c: "chainLoop [] ys = map neg L"
    using chainLoop_neg [of "[]" "rev xs"] by (simp add: ys_def L_def)
  from upper_chain_ok [OF ys] have ok: "chain_ok ys (map neg L)" by (simp add: c)
  have sy: "set ys = neg ` set xs" by (simp add: ys_def)
  have 1: "right_turns L" using ok by (simp add: chain_ok_def)
  have 2: "set L \<subseteq> set xs"
  proof
    fix v assume "v \<in> set L"
    then have "neg v \<in> set (map neg L)" by simp
    with ok have "neg v \<in> neg ` set xs" by (auto simp: chain_ok_def sy)
    then obtain w where "w \<in> set xs" "neg v = neg w" by auto
    then show "v \<in> set xs" by (metis neg_neg)
  qed
  have 3: "cross a b z \<le> 0" if "z \<in> set xs" "(a, b) \<in> set (pairs L)" for z a b
  proof -
    have all: "\<forall>w \<in> set ys. \<forall>e \<in> set (pairs (map neg L)). cross (fst e) (snd e) w \<le> 0"
      using ok by (simp add: chain_ok_def case_prod_beta)
    have m1: "neg z \<in> set ys" using that(1) by (simp add: sy)
    have m2: "(neg a, neg b) \<in> set (pairs (map neg L))"
      using that(2) by (force simp: pairs_map)
    from bspec [OF bspec [OF all m1] m2] show ?thesis by simp
  qed
  show ?thesis unfolding chain_ok_def L_def [symmetric] using 1 2 3 by auto
qed

lemma chainLoop_ends:
  assumes "xs \<noteq> []"
  shows "hd (chainLoop [] xs) = hd xs" and "last (chainLoop [] xs) = last xs"
    and "2 \<le> length xs \<Longrightarrow> 2 \<le> length (chainLoop [] xs)"
    and "chainLoop [] xs \<noteq> []"
proof -
  obtain p ps where xs: "xs = p # ps" using assms by (cases xs) auto
  have c: "chainLoop [] xs = chainLoop [p] ps" by (simp add: xs)
  show "hd (chainLoop [] xs) = hd xs" by (simp add: c hd_chainLoop xs)
  show "last (chainLoop [] xs) = last xs"
    by (cases "ps = []") (simp_all add: c last_chainLoop xs)
  show 2: "2 \<le> length (chainLoop [] xs)" if "2 \<le> length xs"
  proof -
    from that obtain q qs where ps: "ps = q # qs" by (cases ps) (auto simp: xs)
    have "2 \<le> length (popLoop q [p] @ [q])" by simp
    then show ?thesis unfolding c ps chainLoop.simps by (rule length_chainLoop_ge2)
  qed
  show "chainLoop [] xs \<noteq> []"
  proof (cases "ps = []")
    case True then show ?thesis by (simp add: c)
  next
    case False
    then have "2 \<le> length xs" by (cases ps) (simp_all add: xs)
    from 2 [OF this] show ?thesis by auto
  qed
qed

subsection \<open>The shape of the result\<close>

lemma triples_decomp:
  "(a, b, c) \<in> set (triples W) \<Longrightarrow> \<exists>pre post. W = pre @ a # b # c # post"
proof (induction W rule: triples.induct)
  case (1 x y z xs)
  show ?case
  proof (cases "(a, b, c) = (x, y, z)")
    case True
    then show ?thesis by (intro exI [of _ "[]"] exI [of _ xs]) simp
  next
    case False
    with 1 obtain pre post where "y # z # xs = pre @ a # b # c # post" by auto
    then have "x # y # z # xs = (x # pre) @ a # b # c # post" by simp
    then show ?thesis by blast
  qed
qed simp_all

lemma triples_pairs:
  assumes "(a, b, c) \<in> set (triples W)"
  shows "(a, b) \<in> set (pairs (butlast W))" and "c \<in> set W"
proof -
  from triples_decomp [OF assms] obtain pre post where W: "W = pre @ a # b # c # post"
    by blast
  show "c \<in> set W" by (simp add: W)
  have "butlast W = pre @ a # b # butlast (c # post)"
    by (simp add: W butlast_append)
  then show "(a, b) \<in> set (pairs (butlast W))" by (simp only: pairs_mid)
qed

lemma cyclic_triples_edges:
  assumes "(a, b, c) \<in> set (cyclic_triples H)"
  shows "(a, b) \<in> set (cyclic_edges H) \<and> c \<in> set H"
proof -
  from assms have t: "(a, b, c) \<in> set (triples (H @ take 2 H))" by (simp add: cyclic_triples_def)
  note p = triples_pairs [OF t]
  show ?thesis
  proof (cases H)
    case Nil
    with t show ?thesis by simp
  next
    case (Cons h0 H')
    show ?thesis
    proof (cases H')
      case Nil
      with t Cons show ?thesis by simp
    next
      case (Cons h1 H'')
      have "butlast (H @ take 2 H) = H @ take 1 H"
        by (simp add: \<open>H = h0 # H'\<close> Cons butlast_append)
      with p(1) have "(a, b) \<in> set (cyclic_edges H)" by (simp add: cyclic_edges_def)
      moreover have "c \<in> set H" using p(2) by (auto simp: \<open>H = h0 # H'\<close> Cons)
      ultimately show ?thesis by simp
    qed
  qed
qed

lemma getHullPresorted_cases [consumes 2, case_names point poly]:
  assumes "sorted_wrt lexle xs" and "2 \<le> length xs"
  obtains p where "set xs = {p}" and "getHullPresorted xs = [p]"
  | A B where "getHullPresorted xs = A @ B" and "A \<noteq> []" and "B \<noteq> []"
      and "chainLoop [] xs = A @ [last xs]" and "chainLoop [] (rev xs) = B @ [hd xs]"
      and "hd A = hd xs" and "hd B = last xs"
proof -
  have ne: "xs \<noteq> []" "rev xs \<noteq> []" using assms(2) by auto
  define U where "U = chainLoop [] xs"
  define L where "L = chainLoop [] (rev xs)"
  have lu: "2 \<le> length U" "hd U = hd xs" "last U = last xs"
    using chainLoop_ends [OF ne(1)] assms(2) by (simp_all add: U_def)
  have ll: "2 \<le> length L" "hd L = last xs" "last L = hd xs"
    using chainLoop_ends [OF ne(2)] assms(2) ne(1) by (simp_all add: L_def hd_rev last_rev)
  have une: "U \<noteq> []" "butlast U \<noteq> []" using lu(1) by (cases U; cases "tl U"; simp)+
  have lne: "L \<noteq> []" "butlast L \<noteq> []" using ll(1) by (cases L; cases "tl L"; simp)+
  have ua: "U = butlast U @ [last xs]"
    using une(1) lu(3) by (metis append_butlast_last_id)
  have la: "L = butlast L @ [hd xs]"
    using lne(1) ll(3) by (metis append_butlast_last_id)
  have ha: "hd (butlast U) = hd xs"
    using une lu(2) by (metis hd_append2 append_butlast_last_id)
  have hb: "hd (butlast L) = last xs"
    using lne ll(2) by (metis hd_append2 append_butlast_last_id)
  show ?thesis
  proof (cases "length (butlast U) = 1 \<and> length (butlast L) = 1 \<and>
      px (butlast U ! 0) = px (butlast L ! 0) \<and> py (butlast U ! 0) = py (butlast L ! 0)")
    case True
    then have g: "getHullPresorted xs = butlast U"
      using assms(2) by (simp add: getHullPresorted_def U_def L_def)
    from True have e: "butlast U ! 0 = butlast L ! 0" by (simp add: Point_eq_iff)
    have "butlast U = [hd xs]" using True ha by (cases "butlast U") simp_all
    moreover have "butlast L = [last xs]" using True hb by (cases "butlast L") simp_all
    ultimately have hl: "hd xs = last xs" using e by simp
    have "z = hd xs" if "z \<in> set xs" for z
      using sorted_hd_min [OF assms(1) that] sorted_last_max [OF assms(1) that] hl
      by (simp add: lexle_antisym)
    then have "set xs = {hd xs}" using ne(1) by (auto intro: hd_in_set)
    then show ?thesis using that(1) g \<open>butlast U = [hd xs]\<close> by simp
  next
    case False
    then have g: "getHullPresorted xs = butlast U @ butlast L"
      using assms(2) by (auto simp add: getHullPresorted_def U_def L_def)
    show ?thesis
      using that(2) [OF g une(2) lne(2) _ _ ha hb] ua la by (simp add: U_def L_def)
  qed
qed

subsection \<open>Inclusion\<close>

lemma cyclic_edges_single: "cyclic_edges [p] = [(p, p)]"
  by (simp add: cyclic_edges_def)

lemma cyclic_edges_chains:
  assumes "A \<noteq> []" and "B \<noteq> []" and "hd A = m"
  shows "set (cyclic_edges (A @ B)) = set (pairs (A @ [hd B])) \<union> set (pairs (B @ [m]))"
proof -
  have t: "take 1 (A @ B) = [m]" using assms(1,3) by (cases A) simp_all
  have "cyclic_edges (A @ B) = pairs (A @ (B @ [m]))"
    unfolding cyclic_edges_def t by simp
  also have "\<dots> = pairs A @ [(last A, hd B)] @ pairs (B @ [m])"
    using assms(1,2) by (simp add: pairs_append)
  finally have 1: "set (cyclic_edges (A @ B)) =
      set (pairs A) \<union> {(last A, hd B)} \<union> set (pairs (B @ [m]))" by simp
  have "pairs (A @ [hd B]) = pairs A @ [(last A, hd B)]"
    using assms(1) by (simp add: pairs_append)
  then show ?thesis using 1 by simp
qed

lemma getHullPresorted_inside:
  assumes "sorted_wrt lexle xs"
  shows "set (getHullPresorted xs) \<subseteq> set xs"
    and "z \<in> set xs \<Longrightarrow> on_or_inside z (getHullPresorted xs)"
proof -
  have "set (getHullPresorted xs) \<subseteq> set xs \<and>
      (z \<in> set xs \<longrightarrow> on_or_inside z (getHullPresorted xs))"
  proof (cases "2 \<le> length xs")
    case False
    then have g: "getHullPresorted xs = xs" by (simp add: getHullPresorted_def)
    from False have "xs = [] \<or> (\<exists>p. xs = [p])"
      by (cases xs) (auto simp: not_le less_Suc_eq)
    then show ?thesis
      by (auto simp: g on_or_inside_def cyclic_edges_single)
  next
    case True
    then have ne: "xs \<noteq> []" by auto
    from assms True show ?thesis
    proof (cases rule: getHullPresorted_cases)
      case (point p)
      then show ?thesis by (auto simp: on_or_inside_def cyclic_edges_single)
    next
      case (poly A B)
      have uo: "chain_ok xs (A @ [last xs])"
        using upper_chain_ok [OF assms ne] poly(4) by simp
      have lo: "chain_ok xs (B @ [hd xs])"
        using lower_chain_ok [OF assms ne] poly(5) by simp
      have sub: "set (A @ B) \<subseteq> set xs"
        using uo lo by (auto simp: chain_ok_def)
      have ce: "set (cyclic_edges (A @ B)) =
          set (pairs (A @ [last xs])) \<union> set (pairs (B @ [hd xs]))"
        using cyclic_edges_chains [OF poly(2,3,6)] by (simp add: poly(7))
      have ins: "on_or_inside z (A @ B)" if z: "z \<in> set xs"
      proof -
        have "\<forall>e \<in> set (cyclic_edges (A @ B)). cross (fst e) (snd e) z \<le> 0"
          using uo lo z unfolding ce chain_ok_def by (auto simp: case_prod_beta)
        moreover have "hd A \<in> set (A @ B)" "hd B \<in> set (A @ B)"
          using poly(2,3) by simp_all
        moreover have "lexle (hd A) z" "lexle z (hd B)"
          using sorted_hd_min [OF assms z] sorted_last_max [OF assms z] by (simp_all add: poly)
        ultimately show ?thesis
          unfolding on_or_inside_def by (auto simp: case_prod_beta)
      qed
      show ?thesis using sub ins by (simp add: poly(1))
    qed
  qed
  then show "set (getHullPresorted xs) \<subseteq> set xs"
    and "z \<in> set xs \<Longrightarrow> on_or_inside z (getHullPresorted xs)" by simp_all
qed

lemma getHull_inside:
  shows "set (getHull ps) \<subseteq> set ps"
    and "z \<in> set ps \<Longrightarrow> on_or_inside z (getHull ps)"
proof -
  show "set (getHull ps) \<subseteq> set ps"
    using getHullPresorted_inside(1) [OF sorted_sort_by] by (simp add: getHull_def)
  show "on_or_inside z (getHull ps)" if "z \<in> set ps"
    using that getHullPresorted_inside(2) [OF sorted_sort_by] by (simp add: getHull_def)
qed

lemma getHull_turns_weak:
  assumes "(a, b, c) \<in> set (cyclic_triples (getHull ps))"
  shows "cross a b c \<le> 0"
proof -
  from cyclic_triples_edges [OF assms]
  have e: "(a, b) \<in> set (cyclic_edges (getHull ps))" and c: "c \<in> set (getHull ps)" by simp_all
  from c getHull_inside(1) have "c \<in> set ps" by blast
  then have "on_or_inside c (getHull ps)" by (rule getHull_inside(2))
  with e show ?thesis by (auto simp: on_or_inside_def)
qed

subsection \<open>The corners where the chains meet\<close>

lemma lexle_strict:
  assumes "lexle a b" and "a \<noteq> b"
  shows "px a < px b \<or> (px a = px b \<and> py a < py b)"
  using assms by (auto simp: lexle_def Point_eq_iff)

text \<open>A flat corner at the greatest point \<open>M\<close> puts every point on one line.\<close>

lemma flat_corner:
  assumes "lexle u M" "u \<noteq> M" "lexle l M" "l \<noteq> M"
    and "cross u M l = 0" and "cross u M z \<le> 0" and "cross M l z \<le> 0"
  shows "cross u M z = 0"
proof -
  have idx: "cross u M z * (px M - px l) = - (cross M l z * (px M - px u)) + cross u M l * (px M - px z)"
    by (simp add: cross_def algebra_simps)
  have idy: "cross u M z * (py M - py l) = - (cross M l z * (py M - py u)) + cross u M l * (py M - py z)"
    by (simp add: cross_def algebra_simps)
  have xu: "px u \<le> px M" and xl: "px l \<le> px M"
    using assms(1,3) by (simp_all add: lexle_coords)
  show ?thesis
  proof (cases "px l < px M")
    case True
    have "cross u M z * (px M - px l) \<ge> 0"
      unfolding idx using assms(5,7) xu by (simp add: mult_nonpos_nonneg)
    then have "cross u M z \<ge> 0" using True by (simp add: zero_le_mult_iff)
    with assms(6) show ?thesis by simp
  next
    case False
    then have el: "px l = px M" using xl by simp
    then have yl: "py l < py M" using lexle_strict [OF assms(3,4)] by simp
    have "(py M - py l) * (px M - px u) = 0"
      using assms(5) el by (simp add: cross_def algebra_simps)
    then have eu: "px u = px M" using yl by simp
    then have yu: "py u < py M" using lexle_strict [OF assms(1,2)] by simp
    have "cross u M z * (py M - py l) \<ge> 0"
      unfolding idy using assms(5,7) yu by (simp add: mult_nonpos_nonneg)
    then have "cross u M z \<ge> 0" using yl by (simp add: zero_le_mult_iff)
    with assms(6) show ?thesis by simp
  qed
qed

text \<open>Points on the line through two distinct points are collinear.\<close>

lemma on_line_collinear:
  assumes "u \<noteq> M" and "cross u M a = 0" and "cross u M b = 0" and "cross u M c = 0"
  shows "cross a b c = 0"
proof -
  have idx: "cross a b c * (px M - px u) =
      cross u M c * (px b - px a) - cross u M b * (px c - px a) + cross u M a * (px c - px b)"
    by (simp add: cross_def algebra_simps)
  have idy: "cross a b c * (py M - py u) =
      cross u M c * (py b - py a) - cross u M b * (py c - py a) + cross u M a * (py c - py b)"
    by (simp add: cross_def algebra_simps)
  from assms(1) have "px M - px u \<noteq> 0 \<or> py M - py u \<noteq> 0" by (auto simp: Point_eq_iff)
  then show ?thesis
  proof
    assume "px M - px u \<noteq> 0"
    with idx assms(2-4) show ?thesis by simp
  next
    assume "py M - py u \<noteq> 0"
    with idy assms(2-4) show ?thesis by simp
  qed
qed

lemma right_turns_triples:
  "right_turns hs \<longleftrightarrow> (\<forall>(a, b, c) \<in> set (triples hs). cross a b c < 0)"
  by (induction hs rule: right_turns.induct) simp_all

lemma all_equal_collinear:
  assumes "sorted_wrt lexle xs" and "hd xs = last xs"
  shows "collinear_points xs"
proof -
  have "z = hd xs" if "z \<in> set xs" for z
    using sorted_hd_min [OF assms(1) that] sorted_last_max [OF assms(1) that] assms(2)
    by (simp add: lexle_antisym)
  then have "cross a b c = 0" if "a \<in> set xs" "b \<in> set xs" "c \<in> set xs" for a b c
    using that by (metis cross_same(1))
  then show ?thesis by (simp add: collinear_points_def)
qed

lemma junction_max:
  assumes srt: "sorted_wrt lexle xs" and len: "2 \<le> length xs"
    and nc: "\<not> collinear_points xs"
    and U: "chainLoop [] xs = A @ [last xs]" and L: "chainLoop [] (rev xs) = last xs # L'"
    and A: "A \<noteq> []" and L': "L' \<noteq> []"
  shows "cross (last A) (last xs) (hd L') < 0"
proof (rule ccontr)
  assume n: "\<not> cross (last A) (last xs) (hd L') < 0"
  define u where "u = last A"
  define l where "l = hd L'"
  define M where "M = last xs"
  have ne: "xs \<noteq> []" using len by auto
  have uo: "chain_ok xs (A @ [M])" using upper_chain_ok [OF srt ne] U by (simp add: M_def)
  have lo: "chain_ok xs (M # L')" using lower_chain_ok [OF srt ne] L by (simp add: M_def)
  obtain A' where A': "A = A' @ [u]" using A by (metis u_def append_butlast_last_id)
  obtain L'' where L'': "L' = l # L''" using L' by (cases L') (simp_all add: l_def)
  have ux: "u \<in> set xs" using uo by (simp add: chain_ok_def A')
  have lx: "l \<in> set xs" using lo by (simp add: chain_ok_def L'')
  have ends: "last (chainLoop [] (rev xs)) = hd xs" "hd (chainLoop [] xs) = hd xs"
    using chainLoop_ends [of "rev xs"] chainLoop_ends [of xs] ne by (simp_all add: last_rev)
  have hm: "hd xs \<noteq> M" using all_equal_collinear [OF srt] nc by (auto simp: M_def)
  have e1: "\<forall>z \<in> set xs. cross u M z \<le> 0"
    using uo by (simp add: chain_ok_def A')
  have e2: "\<forall>z \<in> set xs. cross M l z \<le> 0"
    using lo by (simp add: chain_ok_def L'')
  have uM: "u \<noteq> M"
  proof (cases A' rule: rev_cases)
    case Nil
    then have "hd (chainLoop [] xs) = u" by (simp add: U A')
    with ends(2) hm show ?thesis by simp
  next
    case (snoc A'' t)
    have "right_turns (A'' @ [t, u, M])" using uo by (simp add: chain_ok_def A' snoc)
    then have "cross t u M < 0" by simp
    then show ?thesis by auto
  qed
  have lM: "l \<noteq> M"
  proof (cases L'')
    case Nil
    then have "last (chainLoop [] (rev xs)) = l" by (simp add: L L'')
    with ends(1) hm show ?thesis by simp
  next
    case (Cons w ws)
    have "right_turns (M # l # w # ws)" using lo by (simp add: chain_ok_def L'' Cons)
    then have "cross M l w < 0" by simp
    then show ?thesis by auto
  qed
  have o: "lexle u M" "lexle l M"
    using sorted_last_max [OF srt ux] sorted_last_max [OF srt lx] by (simp_all add: M_def)
  have "cross u M l \<le> 0" using e1 lx by simp
  with n have z0: "cross u M l = 0" by (simp add: u_def l_def M_def)
  have on: "cross u M z = 0" if "z \<in> set xs" for z
    using o(1) uM o(2) lM z0 e1 e2 that by (intro flat_corner [of u M l z]) simp_all
  have "collinear_points xs"
    unfolding collinear_points_def using on_line_collinear [OF uM] on by blast
  with nc show False by simp
qed

lemma collinear_neg_rev [simp]: "collinear_points (map neg (rev xs)) = collinear_points xs"
  by (simp add: collinear_points_def)

lemma junction_min:
  assumes srt: "sorted_wrt lexle xs" and len: "2 \<le> length xs"
    and nc: "\<not> collinear_points xs"
    and U: "chainLoop [] xs = hd xs # U'" and L: "chainLoop [] (rev xs) = B @ [hd xs]"
    and B: "B \<noteq> []" and U': "U' \<noteq> []"
  shows "cross (last B) (hd xs) (hd U') < 0"
proof -
  define ys where "ys = map neg (rev xs)"
  have ne: "xs \<noteq> []" using len by auto
  have 1: "sorted_wrt lexle ys" using srt by (simp add: ys_def sorted_neg_rev)
  have 2: "2 \<le> length ys" using len by (simp add: ys_def)
  have 3: "\<not> collinear_points ys" using nc by (simp add: ys_def)
  have ly: "last ys = neg (hd xs)" using ne by (simp add: ys_def last_map last_rev)
  have 4: "chainLoop [] ys = map neg B @ [last ys]"
    using chainLoop_neg [of "[]" "rev xs"] by (simp add: ys_def [symmetric] L ly)
  have "rev ys = map neg xs" by (simp add: ys_def rev_map)
  then have 5: "chainLoop [] (rev ys) = last ys # map neg U'"
    using chainLoop_neg [of "[]" xs] by (simp add: U ly)
  have "cross (last (map neg B)) (last ys) (hd (map neg U')) < 0"
    using 1 2 3 4 5 by (rule junction_max) (simp_all add: B U')
  then show ?thesis using B U' by (simp add: last_map hd_map ly)
qed

lemma triples_snoc3 [simp]:
  "triples (xs @ [a, b, c]) = triples (xs @ [a, b]) @ [(a, b, c)]"
  by (induction xs rule: triples.induct) auto

lemma triples_snoc:
  "set (triples (X @ [a, b] @ [y])) = set (triples (X @ [a, b])) \<union> {(a, b, y)}"
  by simp

lemma triples_append:
  "X \<noteq> [] \<Longrightarrow>
   set (triples (X @ y0 # y1 # Y)) \<subseteq>
     set (triples (X @ [y0])) \<union> {(last X, y0, y1)} \<union> set (triples (y0 # y1 # Y))"
  by (induction X rule: triples.induct) auto

lemma hd_tl_append_chain:
  assumes "A \<noteq> []" and "B \<noteq> []"
  shows "hd (tl (A @ B)) = hd (tl (A @ [hd B]))"
proof (cases A)
  case Nil
  with assms show ?thesis by simp
next
  case (Cons a A')
  then show ?thesis using assms(2) by (cases A') simp_all
qed

lemma getHullPresorted_strict:
  assumes srt: "sorted_wrt lexle xs" and big: "3 \<le> length (getHullPresorted xs)"
    and t: "(a, b, c) \<in> set (cyclic_triples (getHullPresorted xs))"
  shows "cross a b c < 0"
proof -
  have len: "2 \<le> length xs"
  proof (rule ccontr)
    assume "\<not> 2 \<le> length xs"
    then have "getHullPresorted xs = xs" by (simp add: getHullPresorted_def)
    with big \<open>\<not> 2 \<le> length xs\<close> show False by simp
  qed
  then have ne: "xs \<noteq> []" by auto
  have nc: "\<not> collinear_points xs"
  proof
    assume "collinear_points xs"
    from getHullPresorted_collinear [OF this len] big show False
      by (simp split: if_splits)
  qed
  from srt len show ?thesis
  proof (cases rule: getHullPresorted_cases)
    case (point p)
    with big show ?thesis by simp
  next
    case (poly A B)
    define M where "M = last xs"
    define m where "m = hd xs"
    obtain U' where U': "A @ [M] = m # U'" "U' \<noteq> []"
      using poly(2,6) by (cases A) (auto simp: m_def)
    obtain L' where L': "B @ [m] = M # L'" "L' \<noteq> []"
      using poly(3,7) by (cases B) (auto simp: M_def)
    have uo: "chain_ok xs (A @ [M])"
      using upper_chain_ok [OF srt ne] poly(4) by (simp add: M_def)
    have lo: "chain_ok xs (B @ [m])"
      using lower_chain_ok [OF srt ne] poly(5) by (simp add: m_def)
    have jM: "cross (last A) M (hd L') < 0"
      using junction_max [OF srt len nc, of A L'] poly(2,4,5) L' by (simp add: M_def m_def)
    have jm: "cross (last B) m (hd U') < 0"
      using junction_min [OF srt len nc, of U' B] poly(3,4,5) U' by (simp add: M_def m_def)
    define h1 where "h1 = hd U'"
    define H where "H = A @ B"
    have hh: "hd (tl H) = h1"
      using hd_tl_append_chain [OF poly(2,3)] U'(1)
      by (simp add: poly(7) M_def [symmetric] h1_def H_def)
    have hm: "hd H = m" using poly(2,6) by (simp add: H_def m_def)
    have "2 \<le> length H" using poly(2,3) by (cases A; cases B) (simp_all add: H_def)
    then have "take 2 H = [hd H, hd (tl H)]"
      by (cases H; cases "tl H") auto
    then have t2: "take 2 H = [m, h1]" by (simp only: hh hm)
    obtain l1 L'' where L'': "L' = l1 # L''" using L'(2) by (cases L') auto
    have "B @ [m, h1] = (B @ [m]) @ [h1]" by simp
    also have "\<dots> = M # l1 # (L'' @ [h1])" by (simp only: L'(1) L'') simp
    finally have w: "A @ (B @ [m, h1]) = A @ M # l1 # (L'' @ [h1])" by simp
    have W: "H @ take 2 H = A @ M # l1 # (L'' @ [h1])"
      unfolding t2 unfolding H_def using w by simp
    have sub1: "set (triples (A @ M # l1 # (L'' @ [h1]))) \<subseteq>
        set (triples (A @ [M])) \<union> {(last A, M, l1)} \<union> set (triples (M # l1 # (L'' @ [h1])))"
      by (rule triples_append [OF poly(2)])
    obtain Bp bl where Bp: "B = Bp @ [bl]" using poly(3) by (cases B rule: rev_cases) auto
    have "M # l1 # (L'' @ [h1]) = (B @ [m]) @ [h1]" using L'(1) by (simp add: L'')
    also have "\<dots> = Bp @ [bl, m, h1]" by (simp add: Bp)
    finally have e: "M # l1 # (L'' @ [h1]) = Bp @ [bl, m, h1]" .
    have "set (triples (Bp @ [bl, m, h1])) = set (triples (Bp @ [bl, m])) \<union> {(bl, m, h1)}"
      by simp
    moreover have "B @ [m] = Bp @ [bl, m]" "last B = bl" by (simp_all add: Bp)
    ultimately have "set (triples (M # l1 # (L'' @ [h1]))) =
        set (triples (B @ [m])) \<union> {(last B, m, h1)}"
      by (simp only: e)
    with sub1 have sub: "set (cyclic_triples H) \<subseteq>
        set (triples (A @ [M])) \<union> {(last A, M, l1)} \<union> set (triples (B @ [m])) \<union> {(last B, m, h1)}"
      unfolding cyclic_triples_def W by auto
    have s1: "\<forall>(a, b, c) \<in> set (triples (A @ [M])). cross a b c < 0"
      using uo by (simp add: chain_ok_def right_turns_triples)
    have s2: "\<forall>(a, b, c) \<in> set (triples (B @ [m])). cross a b c < 0"
      using lo by (simp add: chain_ok_def right_turns_triples)
    from t have "(a, b, c) \<in> set (cyclic_triples H)" by (simp add: poly(1) H_def)
    with sub have "(a, b, c) \<in> set (triples (A @ [M])) \<or> (a, b, c) = (last A, M, l1) \<or>
        (a, b, c) \<in> set (triples (B @ [m])) \<or> (a, b, c) = (last B, m, h1)" by auto
    then show ?thesis
      using s1 s2 jM jm by (auto simp: L'' h1_def)
  qed
qed

subsection \<open>The hull\<close>

lemma getHull_turns_strict:
  assumes "3 \<le> length (getHull ps)" and "(a, b, c) \<in> set (cyclic_triples (getHull ps))"
  shows "cross a b c < 0"
  using getHullPresorted_strict [OF sorted_sort_by] assms unfolding getHull_def by blast

lemma getHull_chains_turn:
  "right_turns (chainLoop [] (sort_by comparePoints ps))"
  "right_turns (chainLoop [] (rev (sort_by comparePoints ps)))"
proof -
  define xs where "xs = sort_by comparePoints ps"
  have s: "sorted_wrt lexle xs" by (simp add: xs_def sorted_sort_by)
  have "right_turns (chainLoop [] xs) \<and> right_turns (chainLoop [] (rev xs))"
  proof (cases "xs = []")
    case True
    then show ?thesis by simp
  next
    case False
    from upper_chain_ok [OF s False] lower_chain_ok [OF s False] show ?thesis
      by (simp add: chain_ok_def)
  qed
  then show "right_turns (chainLoop [] (sort_by comparePoints ps))"
    "right_turns (chainLoop [] (rev (sort_by comparePoints ps)))"
    by (simp_all add: xs_def)
qed


lemma ex_points_hull:
  "getHull ex_points =
     [\<lparr>px = 0, py = 0\<rparr>, \<lparr>px = 0, py = 10\<rparr>, \<lparr>px = 10, py = 10\<rparr>, \<lparr>px = 10, py = 0\<rparr>]"
  unfolding ex_points_def by code_simp

text \<open>The notion is not empty: a point to the right of the square is not on or inside
  its hull.\<close>

lemma ex_points_outside: "\<not> on_or_inside \<lparr>px = 20, py = 5\<rparr> (getHull ex_points)"
  by (simp add: ex_points_hull on_or_inside_def cyclic_edges_def cross_def)


end
